theory Spec2Isabelle
  imports Main "HOL-Library.Word"
begin

section \<open>Python values, exceptions and byte strings\<close>

text \<open>
  A Python \<^verbatim>\<open>bytes\<close> object is a list of 8-bit words; indexing it yields an integer in
  0..255, read with \<open>unat\<close>.
\<close>

type_synonym byte = "8 word"
type_synonym bytes = "byte list"

text \<open>
  The exceptions of \<^verbatim>\<open>rlp/codec.py\<close>. \<^verbatim>\<open>EncodingError\<close> and \<^verbatim>\<open>DecodingError\<close> carry a
  message in the source; the message is kept as a constructor naming the raise site.
\<close>

datatype encoding_reason =
    CannotEncodeType  \<comment> \<open>'Cannot encode object of type ...'\<close>
  | ItemTooBig        \<comment> \<open>'Item too big to encode'\<close>

datatype decoding_reason =
    NotBytes               \<comment> \<open>'Can only decode RLP bytes, got type ...'\<close>
  | StringTooShort         \<comment> \<open>'RLP string too short'\<close>
  | SuperfluousBytes       \<comment> \<open>'RLP string ends with ... superfluous bytes'\<close>
  | ShortStringSingleByte  \<comment> \<open>'Encoded as short string although single byte was possible'\<close>
  | LengthStartsWithZero   \<comment> \<open>'Length starts with zero bytes'\<close>
  | LongStringForShort     \<comment> \<open>'Long string prefix used for short string'\<close>
  | LongListForShort       \<comment> \<open>'Long list prefix used for short list'\<close>
  | ListLengthTooSmall     \<comment> \<open>'List length prefix announced a too small length'\<close>

datatype exn =
    IndexError
  | ValueError
  | TypeError
  | EncodingError encoding_reason
  | DecodingError decoding_reason

text \<open>
  The class of a Python object, as far as the codec inspects it: whether the class is a
  sedes (\<^verbatim>\<open>is_sedes(obj.__class__)\<close>), whether it derives from \<^verbatim>\<open>Serializable\<close>, and
  whether it is a \<^verbatim>\<open>collections.Sequence\<close>.
\<close>

record pyclass =
  class_name :: string
  cls_is_sedes :: bool
  cls_is_Serializable :: bool
  cls_is_Sequence :: bool

text \<open>
  The Python objects the codec distinguishes. \<open>PyList\<close> stands for the built-in
  sequences other than \<^verbatim>\<open>str\<close> and \<^verbatim>\<open>bytes\<close>. An instance of a user class carries its
  class, its elements (what iterating over it yields when the class is a Sequence) and
  its \<^verbatim>\<open>_cached_rlp\<close> attribute.
\<close>

datatype pyobj =
    PyNone
  | PyBool bool
  | PyInt int
  | PyBytes bytes
  | PyStr string
  | PyList "pyobj list"
  | PyInstance pyclass "pyobj list" "bytes option"

definition getitem :: "bytes \<Rightarrow> nat \<Rightarrow> exn + byte" where
  \<comment> \<open>\<^verbatim>\<open>rlp[i]\<close> for \<open>i \<ge> 0\<close>: raises IndexError past the end.\<close>
  "getitem rlp i = (if i < length rlp then Inr (rlp ! i) else Inl IndexError)"

definition slice :: "bytes \<Rightarrow> nat \<Rightarrow> nat \<Rightarrow> bytes" where
  \<comment> \<open>\<^verbatim>\<open>rlp[i:j]\<close> for \<open>0 \<le> i\<close>, \<open>0 \<le> j\<close>: never raises, stops at the end of \<open>rlp\<close>.\<close>
  "slice rlp i j = take (j - i) (drop i rlp)"

section \<open>Helpers imported by the codec\<close>

text \<open>
  Modelled from the spec: \<^verbatim>\<open>int_to_big_endian\<close> and \<^verbatim>\<open>big_endian_to_int\<close> are imported
  from \<^verbatim>\<open>eth_utils\<close> and are not under src/. The spec describes the first as the length
  "in big-endian with no leading zero" and the second as "decode big-endian". As in
  \<^verbatim>\<open>eth_utils\<close>, zero is written as the single byte 0; the codec never passes zero.
\<close>

fun be_digits :: "nat \<Rightarrow> bytes" where
  "be_digits n = (if n = 0 then [] else be_digits (n div 256) @ [of_nat (n mod 256)])"

declare be_digits.simps [simp del]

definition int_to_big_endian :: "nat \<Rightarrow> bytes" where
  "int_to_big_endian n = (if n = 0 then [0] else be_digits n)"

definition big_endian_to_int :: "bytes \<Rightarrow> nat" where
  "big_endian_to_int bs = foldl (\<lambda>acc b. acc * 256 + unat b) 0 bs"

text \<open>
  Modelled from the spec: \<^verbatim>\<open>ALL_BYTES\<close> comes from \<^verbatim>\<open>rlp.utils\<close>, which is not under src/;
  it is the tuple of the 256 one-byte strings, so that \<^verbatim>\<open>ALL_BYTES[i]\<close> is the "one byte"
  with value \<open>i\<close>, and an index of 256 or more raises IndexError.
\<close>

definition ALL_BYTES :: "nat \<Rightarrow> exn + bytes" where
  "ALL_BYTES i = (if i < 256 then Inr [of_nat i] else Inl IndexError)"

section \<open>Raw encoding\<close>

definition LONG_LENGTH :: nat where
  "LONG_LENGTH = 256 ^ 8"

definition length_prefix :: "nat \<Rightarrow> nat \<Rightarrow> exn + bytes" where
  "length_prefix len offset =
     (if len < 56 then ALL_BYTES (offset + len)
      else if len < LONG_LENGTH then
        (let length_string = int_to_big_endian len in
         case ALL_BYTES (offset + 56 - 1 + length length_string) of
           Inl e \<Rightarrow> Inl e
         | Inr b \<Rightarrow> Inr (b @ length_string))
      else Inl ValueError)"

text \<open>
  \<^verbatim>\<open>b''.join(encode_raw(x) for x in item)\<close>: the children are encoded from left to right
  and the first exception ends the join.
\<close>

fun join :: "(exn + bytes) list \<Rightarrow> exn + bytes" where
  "join [] = Inr []"
| "join (r # rs) =
     (case r of
        Inl e \<Rightarrow> Inl e
      | Inr b \<Rightarrow> (case join rs of Inl e \<Rightarrow> Inl e | Inr bs \<Rightarrow> Inr (b @ bs)))"

text \<open>
  The tail of \<^verbatim>\<open>encode_raw\<close>, after \<^verbatim>\<open>payload\<close> and \<^verbatim>\<open>prefix_offset\<close> are set: only the
  ValueError of \<^verbatim>\<open>length_prefix\<close> is turned into an EncodingError.
\<close>

definition add_prefix :: "bytes \<Rightarrow> nat \<Rightarrow> exn + bytes" where
  "add_prefix payload prefix_offset =
     (case length_prefix (length payload) prefix_offset of
        Inl ValueError \<Rightarrow> Inl (EncodingError ItemTooBig)
      | Inl e \<Rightarrow> Inl e
      | Inr prefix \<Rightarrow> Inr (prefix @ payload))"

text \<open>
  \<^verbatim>\<open>encode_raw\<close>: \<^verbatim>\<open>bytes\<close> is the registered \<^verbatim>\<open>Atomic\<close>; a list, or an instance of a class
  that is a Sequence, takes the second branch; everything else (\<^verbatim>\<open>str\<close> included) is
  refused.
\<close>

fun encode_raw :: "pyobj \<Rightarrow> exn + bytes" where
  "encode_raw (PyBytes item) =
     (if length item = 1 \<and> unat (item ! 0) < 128 then Inr item
      else add_prefix item 128)"
| "encode_raw (PyList items) =
     (case join (map encode_raw items) of
        Inl e \<Rightarrow> Inl e
      | Inr payload \<Rightarrow> add_prefix payload 192)"
| "encode_raw (PyInstance c items cached) =
     (if cls_is_Sequence c then
        (case join (map encode_raw items) of
           Inl e \<Rightarrow> Inl e
         | Inr payload \<Rightarrow> add_prefix payload 192)
      else Inl (EncodingError CannotEncodeType))"
| "encode_raw PyNone = Inl (EncodingError CannotEncodeType)"
| "encode_raw (PyBool b) = Inl (EncodingError CannotEncodeType)"
| "encode_raw (PyInt n) = Inl (EncodingError CannotEncodeType)"
| "encode_raw (PyStr s) = Inl (EncodingError CannotEncodeType)"

text \<open>
  The Trees of the raw codec: a byte string, or a list of Trees. These are the values
  \<^verbatim>\<open>consume_item\<close> can return once \<^verbatim>\<open>_split_rlp_from_item\<close> has stripped the slices.
\<close>

fun is_tree :: "pyobj \<Rightarrow> bool" where
  "is_tree (PyBytes item) = True"
| "is_tree (PyList items) = list_all is_tree items"
| "is_tree obj = False"

text \<open>
  The condition under which the spec promises an encoding: every payload is shorter than
  2^64 bytes. The payload of a leaf is the leaf; the payload of a list is what
  \<^verbatim>\<open>encode_raw\<close> joins, the encodings of its children.
\<close>

fun payloads_fit :: "pyobj \<Rightarrow> bool" where
  "payloads_fit (PyBytes item) = (length item < 2 ^ 64)"
| "payloads_fit (PyList items) =
     (list_all payloads_fit items \<and>
      (case join (map encode_raw items) of
         Inl e \<Rightarrow> False
       | Inr payload \<Rightarrow> length payload < 2 ^ 64))"
| "payloads_fit obj = False"

section \<open>Raw decoding\<close>

definition SHORT_STRING :: nat where
  "SHORT_STRING = 128 + 56"

text \<open>The \<^verbatim>\<open>type\<close> component of a read prefix: the class \<^verbatim>\<open>bytes\<close> or the class \<^verbatim>\<open>list\<close>.\<close>

datatype payload_type = bytes_type | list_type

definition consume_length_prefix ::
  "bytes \<Rightarrow> nat \<Rightarrow> exn + (bytes \<times> payload_type \<times> nat \<times> nat)" where
  "consume_length_prefix rlp start =
     (case getitem rlp start of
        Inl e \<Rightarrow> Inl e
      | Inr b \<Rightarrow>
         (let b0 = unat b in
          if b0 < 128 then Inr ([], bytes_type, 1, start)
          else if b0 < SHORT_STRING then
            (if b0 - 128 = 1 then
               (case getitem rlp (start + 1) of
                  Inl e \<Rightarrow> Inl e
                | Inr b1 \<Rightarrow>
                    if unat b1 < 128 then Inl (DecodingError ShortStringSingleByte)
                    else Inr (int_to_big_endian b0, bytes_type, b0 - 128, start + 1))
             else Inr (int_to_big_endian b0, bytes_type, b0 - 128, start + 1))
          else if b0 < 192 then
            (let ll = b0 - 183 in
             if slice rlp (start + 1) (start + 2) = [0]
             then Inl (DecodingError LengthStartsWithZero)
             else
               (let len_prefix = slice rlp (start + 1) (start + 1 + ll);
                    l = big_endian_to_int len_prefix in
                if l < 56 then Inl (DecodingError LongStringForShort)
                else Inr (int_to_big_endian b0 @ len_prefix, bytes_type, l, start + 1 + ll)))
          else if b0 < 192 + 56 then
            Inr (int_to_big_endian b0, list_type, b0 - 192, start + 1)
          else
            (let ll = b0 - 192 - 56 + 1 in
             if slice rlp (start + 1) (start + 2) = [0]
             then Inl (DecodingError LengthStartsWithZero)
             else
               (let len_prefix = slice rlp (start + 1) (start + 1 + ll);
                    l = big_endian_to_int len_prefix in
                if l < 56 then Inl (DecodingError LongListForShort)
                else Inr (int_to_big_endian b0 @ len_prefix, list_type, l, start + 1 + ll)))))"

text \<open>
  A decoded item paired with the slice of the input that produced it: the tuple
  \<^verbatim>\<open>(item, rlp)\<close> where \<^verbatim>\<open>item\<close> is a byte string or a list of such tuples.
\<close>

datatype item_with_rlp =
    BytesItem bytes bytes
  | ListItem "item_with_rlp list" bytes

fun item_rlp :: "item_with_rlp \<Rightarrow> bytes" where
  \<comment> \<open>\<^verbatim>\<open>item[1]\<close>\<close>
  "item_rlp (BytesItem item rlp) = rlp"
| "item_rlp (ListItem items rlp) = rlp"


text \<open>
  \<^verbatim>\<open>consume_payload\<close> and the \<^verbatim>\<open>while\<close> loop of its list branch. The loop state is
  \<^verbatim>\<open>items\<close>, \<^verbatim>\<open>list_rlp\<close> and \<^verbatim>\<open>next_item_start\<close>; \<open>consume_children\<close> is the loop from
  such a state and returns the state at exit. The \<^verbatim>\<open>TypeError\<close> branch of the source
  needs a \<^verbatim>\<open>type_\<close> that is neither \<^verbatim>\<open>bytes\<close> nor \<^verbatim>\<open>list\<close>, which
  \<^verbatim>\<open>consume_length_prefix\<close> never returns and \<open>payload_type\<close> excludes.
\<close>

function consume_payload ::
    "bytes \<Rightarrow> bytes \<Rightarrow> nat \<Rightarrow> payload_type \<Rightarrow> nat \<Rightarrow> exn + (item_with_rlp \<times> nat)"
  and consume_children ::
    "bytes \<Rightarrow> nat \<Rightarrow> item_with_rlp list \<Rightarrow> bytes \<Rightarrow> nat \<Rightarrow>
       exn + (item_with_rlp list \<times> bytes \<times> nat)"
where
  "consume_payload rlp prefix start bytes_type len =
     (let item = slice rlp start (start + len) in
      Inr (BytesItem item (prefix @ item), start + len))"
| "consume_payload rlp prefix start list_type len =
     (let end = start + len in
      case consume_children rlp end [] prefix start of
        Inl e \<Rightarrow> Inl e
      | Inr (items, list_rlp, next_item_start) \<Rightarrow>
          if next_item_start > end then Inl (DecodingError ListLengthTooSmall)
          else Inr (ListItem items list_rlp, next_item_start))"
| "consume_children rlp end items list_rlp next_item_start =
     (if next_item_start < end then
        (case consume_length_prefix rlp next_item_start of
           Inl e \<Rightarrow> Inl e
         | Inr (p, t, l, s) \<Rightarrow>
            (case consume_payload rlp p s t l of
               Inl e \<Rightarrow> Inl e
             | Inr (item, next_item_start') \<Rightarrow>
                 consume_children rlp end (items @ [item]) (list_rlp @ item_rlp item)
                   next_item_start'))
      else Inr (items, list_rlp, next_item_start))"
  by pat_completeness auto

text \<open>
  The loop ends on every input. A prefix is read only inside the buffer, a byte payload
  ends after the position of its prefix, and a list payload starts after it; so each
  iteration moves \<^verbatim>\<open>next_item_start\<close> forward, and a read at or past the end of the buffer
  raises IndexError.
\<close>

lemma consume_length_prefix_progress:
  assumes "consume_length_prefix rlp start = Inr (p, t, l, s)"
  shows "start < length rlp"
    and "start \<le> s"
    and "t = bytes_type \<Longrightarrow> start < s + l"
    and "t = list_type \<Longrightarrow> start < s"
  using assms
  by (auto simp: consume_length_prefix_def getitem_def Let_def
           split: if_splits sum.splits)

lemma consume_partial_monotone:
  "consume_payload_consume_children_dom (Inl (rlp, prefix, start, t, len)) \<Longrightarrow>
     consume_payload rlp prefix start t len = Inr (item, e) \<Longrightarrow> start \<le> e"
  "consume_payload_consume_children_dom (Inr (rlp, end, items, list_rlp, next_item_start)) \<Longrightarrow>
     consume_children rlp end items list_rlp next_item_start = Inr (items', list_rlp', e') \<Longrightarrow>
     next_item_start \<le> e'"
proof (induction rlp prefix start t len and rlp "end" items list_rlp next_item_start
       arbitrary: item e and items' list_rlp' e'
       rule: consume_payload_consume_children.pinduct)
  case (1 rlp prefix start len)
  then show ?case by (simp add: consume_payload.psimps Let_def)
next
  case (2 rlp prefix start len)
  then show ?case
    by (auto simp: consume_payload.psimps Let_def split: sum.splits if_splits)
next
  case (3 rlp "end" items list_rlp next_item_start)
  show ?case
  proof (cases "next_item_start < end")
    case False
    with 3 show ?thesis by (simp add: consume_children.psimps)
  next
    case True
    from 3(1,4) True obtain p t l s item nxt where
      lp: "consume_length_prefix rlp next_item_start = Inr (p, t, l, s)" and
      cp: "consume_payload rlp p s t l = Inr (item, nxt)" and
      cc: "consume_children rlp end (items @ [item]) (list_rlp @ item_rlp item) nxt
             = Inr (items', list_rlp', e')"
      by (auto simp: consume_children.psimps split: sum.splits)
    have "s \<le> nxt" using 3(2)[OF True lp refl refl refl cp] .
    moreover have "nxt \<le> e'" using 3(3)[OF True lp refl refl refl cp refl cc] .
    moreover have "next_item_start \<le> s"
      using consume_length_prefix_progress(2)[OF lp] .
    ultimately show ?thesis by simp
  qed
qed

termination consume_payload
proof (relation "measure (\<lambda>x. case x of
            Inl (rlp, prefix, start, t, len) \<Rightarrow>
              (case t of bytes_type \<Rightarrow> 0 | list_type \<Rightarrow> 2 * (length rlp + 1 - start) + 1)
          | Inr (rlp, end, items, list_rlp, next_item_start) \<Rightarrow>
              2 * (length rlp + 1 - next_item_start))", goal_cases)
  case 1
  then show ?case by simp
next
  case (2 rlp prefix start len x)
  then show ?case by simp
next
  case (3 rlp "end" items list_rlp next_item_start b x y xa ya xb yb)
  then have lp: "consume_length_prefix rlp next_item_start = Inr (x, xa, xb, yb)" by simp
  show ?case using consume_length_prefix_progress[OF lp] by (cases xa) auto
next
  case (4 rlp "end" items list_rlp next_item_start b x y xa ya xb yb ba xc yc)
  then have lp: "consume_length_prefix rlp next_item_start = Inr (x, xa, xb, yb)"
    and cp: "consume_payload rlp x yb xa xb = Inr (xc, yc)" by simp_all
  have "next_item_start < yc"
  proof (cases xa)
    case bytes_type
    have "consume_payload_consume_children_dom (Inl (rlp, x, yb, bytes_type, xb))"
      using 4 bytes_type by simp
    with cp bytes_type have "yc = yb + xb"
      by (simp add: consume_payload.psimps Let_def)
    with consume_length_prefix_progress(3)[OF lp] bytes_type show ?thesis by simp
  next
    case list_type
    have "consume_payload_consume_children_dom (Inl (rlp, x, yb, xa, xb))"
      using 4 by simp
    from consume_partial_monotone(1)[OF this cp] consume_length_prefix_progress(4)[OF lp]
      list_type
    show ?thesis by simp
  qed
  with consume_length_prefix_progress(1)[OF lp] show ?case by simp
qed

declare consume_children.simps [simp del]

definition consume_item :: "bytes \<Rightarrow> nat \<Rightarrow> exn + (item_with_rlp \<times> nat)" where
  "consume_item rlp start =
     (case consume_length_prefix rlp start of
        Inl e \<Rightarrow> Inl e
      | Inr (p, t, l, s) \<Rightarrow> consume_payload rlp p s t l)"


text \<open>
  The second component of \<^verbatim>\<open>_split_rlp_from_item\<close>: the slice of a leaf, or for a list the
  Python list of its own slice followed by what the children give.
\<close>

datatype split_rlp =
    RlpBytes bytes
  | RlpList "split_rlp list"

text \<open>
  \<^verbatim>\<open>_split_rlp_from_item\<close>. Its first component is the bare tree. The \<^verbatim>\<open>TypeError\<close> branch
  needs an item that is neither a byte string nor a list, which \<open>item_with_rlp\<close> excludes.
\<close>

fun split_rlp_from_item :: "item_with_rlp \<Rightarrow> pyobj \<times> split_rlp" where
  "split_rlp_from_item (BytesItem item rlp) = (PyBytes item, RlpBytes rlp)"
| "split_rlp_from_item (ListItem item rlp) =
     (PyList (map (\<lambda>sub. fst (split_rlp_from_item sub)) item),
      RlpList (RlpBytes rlp # map (\<lambda>sub. snd (split_rlp_from_item sub)) item))"

text \<open>
  \<^verbatim>\<open>decode(rlp, sedes=None, strict=strict)\<close>: the call without a sedes, which returns the
  bare tree. Only the IndexError of \<^verbatim>\<open>consume_item\<close> is caught.
\<close>

definition decode :: "pyobj \<Rightarrow> bool \<Rightarrow> exn + pyobj" where
  "decode rlp strict =
     (case rlp of
        PyBytes bs \<Rightarrow>
          (case consume_item bs 0 of
             Inl IndexError \<Rightarrow> Inl (DecodingError StringTooShort)
           | Inl e \<Rightarrow> Inl e
           | Inr (item_with_rlp, end) \<Rightarrow>
               if end \<noteq> length bs \<and> strict then Inl (DecodingError SuperfluousBytes)
               else Inr (fst (split_rlp_from_item item_with_rlp)))
      | _ \<Rightarrow> Inl (DecodingError NotBytes))"

section \<open>Type inference and the public entry point\<close>

text \<open>
  The sedes objects \<^verbatim>\<open>infer_sedes\<close> can return: the class of the object, the built-in
  codecs, and a \<^verbatim>\<open>List\<close> of sedes.
\<close>

datatype sedes =
    ClassSedes pyclass
  | big_endian_int
  | binary
  | List "sedes list"
  | boolean
  | "text"

fun class_of :: "pyobj \<Rightarrow> pyclass" where
  \<comment> \<open>\<^verbatim>\<open>obj.__class__\<close>; the built-in classes are no sedes and no Serializable, and
      \<^verbatim>\<open>bytes\<close>, \<^verbatim>\<open>str\<close> and \<^verbatim>\<open>list\<close> are Sequences.\<close>
  "class_of PyNone =
     \<lparr>class_name = ''NoneType'', cls_is_sedes = False, cls_is_Serializable = False,
      cls_is_Sequence = False\<rparr>"
| "class_of (PyBool b) =
     \<lparr>class_name = ''bool'', cls_is_sedes = False, cls_is_Serializable = False,
      cls_is_Sequence = False\<rparr>"
| "class_of (PyInt n) =
     \<lparr>class_name = ''int'', cls_is_sedes = False, cls_is_Serializable = False,
      cls_is_Sequence = False\<rparr>"
| "class_of (PyBytes bs) =
     \<lparr>class_name = ''bytes'', cls_is_sedes = False, cls_is_Serializable = False,
      cls_is_Sequence = True\<rparr>"
| "class_of (PyStr s) =
     \<lparr>class_name = ''str'', cls_is_sedes = False, cls_is_Serializable = False,
      cls_is_Sequence = True\<rparr>"
| "class_of (PyList xs) =
     \<lparr>class_name = ''list'', cls_is_sedes = False, cls_is_Serializable = False,
      cls_is_Sequence = True\<rparr>"
| "class_of (PyInstance c xs cached) = c"

text \<open>
  Modelled from the spec: \<^verbatim>\<open>is_sedes\<close> comes from \<^verbatim>\<open>rlp.sedes.lists\<close>, which is not under
  src/. "A sedes is any value exposing \<^verbatim>\<open>serialize\<close> and \<^verbatim>\<open>deserialize\<close>"; the class
  record says whether the class exposes both.
\<close>

definition is_sedes :: "pyclass \<Rightarrow> bool" where
  "is_sedes c = cls_is_sedes c"

text \<open>The \<^verbatim>\<open>isinstance\<close> tests of the codec. In Python \<^verbatim>\<open>bool\<close> is a subclass of \<^verbatim>\<open>int\<close>.\<close>

fun isinstance_bool :: "pyobj \<Rightarrow> bool" where
  "isinstance_bool (PyBool b) = True"
| "isinstance_bool obj = False"

fun isinstance_int :: "pyobj \<Rightarrow> bool" where
  "isinstance_int (PyBool b) = True"
| "isinstance_int (PyInt n) = True"
| "isinstance_int obj = False"

fun int_value :: "pyobj \<Rightarrow> int" where
  \<comment> \<open>the value compared in \<^verbatim>\<open>obj >= 0\<close>, evaluated only when \<^verbatim>\<open>obj\<close> is an \<^verbatim>\<open>int\<close>\<close>
  "int_value (PyInt n) = n"
| "int_value (PyBool b) = (if b then 1 else 0)"
| "int_value obj = 0"

fun isinstance_str :: "pyobj \<Rightarrow> bool" where
  "isinstance_str (PyStr s) = True"
| "isinstance_str obj = False"

definition isinstance_Sequence :: "pyobj \<Rightarrow> bool" where
  "isinstance_Sequence obj = cls_is_Sequence (class_of obj)"

definition isinstance_Serializable :: "pyobj \<Rightarrow> bool" where
  "isinstance_Serializable obj = cls_is_Serializable (class_of obj)"

text \<open>
  Modelled from the spec: \<^verbatim>\<open>BinaryClass.is_valid_type\<close> comes from \<^verbatim>\<open>rlp.sedes.binary\<close>,
  which is not under src/; rule 3 of the inference applies when the "value is a byte
  string".
\<close>

fun is_valid_type :: "pyobj \<Rightarrow> bool" where
  "is_valid_type (PyBytes bs) = True"
| "is_valid_type obj = False"

fun elements :: "pyobj \<Rightarrow> pyobj list" where
  \<comment> \<open>what iterating over a list or over an instance of a Sequence class yields\<close>
  "elements (PyList xs) = xs"
| "elements (PyInstance c xs cached) = xs"
| "elements obj = []"

text \<open>
  \<^verbatim>\<open>List(map(infer_sedes, obj))\<close>: the children are inferred from left to right and the
  first exception ends the construction.
\<close>

fun collect :: "(exn + 'a) list \<Rightarrow> exn + 'a list" where
  "collect [] = Inr []"
| "collect (r # rs) =
     (case r of
        Inl e \<Rightarrow> Inl e
      | Inr x \<Rightarrow> (case collect rs of Inl e \<Rightarrow> Inl e | Inr xs \<Rightarrow> Inr (x # xs)))"

function infer_sedes :: "pyobj \<Rightarrow> exn + sedes" where
  "infer_sedes obj =
     (if is_sedes (class_of obj) then Inr (ClassSedes (class_of obj))
      else if \<not> isinstance_bool obj \<and> isinstance_int obj \<and> int_value obj \<ge> 0
        then Inr big_endian_int
      else if is_valid_type obj then Inr binary
      else if \<not> isinstance_str obj \<and> isinstance_Sequence obj then
        (case collect (map infer_sedes (elements obj)) of
           Inl e \<Rightarrow> Inl e
         | Inr subs \<Rightarrow> Inr (List subs))
      else if isinstance_bool obj then Inr boolean
      else if isinstance_str obj then Inr text
      else Inl TypeError)"
  by pat_completeness auto

lemma size_elements: "x \<in> set (elements obj) \<Longrightarrow> size x < size obj"
  by (cases obj) (auto simp: less_Suc_eq_le size_list_estimation')

termination infer_sedes
  by (relation "measure size") (auto simp: size_elements)

declare infer_sedes.simps [simp del]

text \<open>
  The \<^verbatim>\<open>_cached_rlp\<close> attribute, read and assigned only on instances of \<^verbatim>\<open>Serializable\<close>.
  Its truth value in \<^verbatim>\<open>if ... and cached_rlp\<close> is that of a non-empty byte string.
\<close>

fun cached_rlp_of :: "pyobj \<Rightarrow> bytes option" where
  "cached_rlp_of (PyInstance c xs cached) = cached"
| "cached_rlp_of obj = None"

fun set_cached_rlp :: "pyobj \<Rightarrow> bytes \<Rightarrow> pyobj" where
  "set_cached_rlp (PyInstance c xs cached) result = PyInstance c xs (Some result)"
| "set_cached_rlp obj result = obj"

text \<open>
  \<^verbatim>\<open>encode\<close>. The sedes layer is not under src/ and is taken as two parameters:
  \<open>serialize sd obj\<close> is \<^verbatim>\<open>sd.serialize(obj)\<close>, and \<open>truth sd\<close> is the truth value of the
  sedes object in \<^verbatim>\<open>if sedes:\<close>. The object is returned with the result, its
  \<^verbatim>\<open>_cached_rlp\<close> assigned where the source assigns it; an exception leaves it as it was.
\<close>

definition encode ::
  "(sedes \<Rightarrow> pyobj \<Rightarrow> exn + pyobj) \<Rightarrow> (sedes \<Rightarrow> bool) \<Rightarrow>
     pyobj \<Rightarrow> sedes option \<Rightarrow> bool \<Rightarrow> bool \<Rightarrow> exn + (bytes \<times> pyobj)" where
  "encode serialize truth obj sedes infer_serializer cache =
     (let cached_rlp = cached_rlp_of obj in
      if isinstance_Serializable obj \<and> sedes = None \<and> cached_rlp \<noteq> None \<and> cached_rlp \<noteq> Some []
      then Inr (the cached_rlp, obj)
      else
        (let really_cache = (isinstance_Serializable obj \<and> cache \<and> sedes = None) in
         case
           (case sedes of
              Some sd \<Rightarrow>
                if truth sd then serialize sd obj
                else if infer_serializer then
                  (case infer_sedes obj of Inl e \<Rightarrow> Inl e | Inr sd' \<Rightarrow> serialize sd' obj)
                else Inr obj
            | None \<Rightarrow>
                if infer_serializer then
                  (case infer_sedes obj of Inl e \<Rightarrow> Inl e | Inr sd' \<Rightarrow> serialize sd' obj)
                else Inr obj)
         of
           Inl e \<Rightarrow> Inl e
         | Inr item \<Rightarrow>
            (case encode_raw item of
               Inl e \<Rightarrow> Inl e
             | Inr result \<Rightarrow>
                 Inr (result, if really_cache then set_cached_rlp obj result else obj))))"

section \<open>Big-endian conversion\<close>

lemma unat_of_nat_byte: "n < 256 \<Longrightarrow> unat (of_nat n :: byte) = n"
  by (simp add: unat_of_nat)

lemma of_nat_byte_eq_0: "n < 256 \<Longrightarrow> (of_nat n :: byte) = 0 \<longleftrightarrow> n = 0"
  by (auto simp: word_of_nat_eq_0_iff dest: dvd_imp_le)

lemma unat_byte_less: "unat (b :: byte) < 256"
  using unsigned_less[of b, where 'a=nat] by simp

lemma big_endian_to_int_snoc:
  "big_endian_to_int (bs @ [b]) = big_endian_to_int bs * 256 + unat b"
  by (simp add: big_endian_to_int_def)

lemma big_endian_to_int_Nil: "big_endian_to_int [] = 0"
  by (simp add: big_endian_to_int_def)

lemma be_digits_0: "be_digits 0 = []"
  by (simp add: be_digits.simps)

lemma be_digits_pos: "0 < n \<Longrightarrow> be_digits n = be_digits (n div 256) @ [of_nat (n mod 256)]"
  by (subst be_digits.simps) simp

lemma be_digits_eq_Nil: "be_digits n = [] \<longleftrightarrow> n = 0"
  by (subst be_digits.simps) simp

lemma hd_be_digits: "0 < n \<Longrightarrow> hd (be_digits n) \<noteq> 0"
proof (induction n rule: be_digits.induct)
  case (1 n)
  show ?case
  proof (cases "n div 256 = 0")
    case True
    then have "n < 256" by (simp add: div_eq_0_iff)
    with 1(2) True have "be_digits n = [of_nat n]"
      by (simp add: be_digits_pos[of n] be_digits_0)
    with 1(2) \<open>n < 256\<close> show ?thesis by (simp add: of_nat_byte_eq_0)
  next
    case False
    then have "be_digits (n div 256) \<noteq> []" by (simp add: be_digits_eq_Nil)
    moreover from 1 False have "hd (be_digits (n div 256)) \<noteq> 0" by simp
    ultimately show ?thesis using 1(2) by (simp add: be_digits_pos[of n])
  qed
qed

lemma big_endian_to_int_be_digits: "big_endian_to_int (be_digits n) = n"
proof (induction n rule: be_digits.induct)
  case (1 n)
  show ?case
  proof (cases "n = 0")
    case True
    then show ?thesis by (simp add: be_digits_0 big_endian_to_int_Nil)
  next
    case False
    with 1 show ?thesis
      by (simp add: be_digits_pos[of n] big_endian_to_int_snoc unat_of_nat_byte)
  qed
qed

lemma length_be_digits: "n < 256 ^ k \<Longrightarrow> length (be_digits n) \<le> k"
proof (induction n arbitrary: k rule: be_digits.induct)
  case (1 n)
  show ?case
  proof (cases "n = 0")
    case True
    then show ?thesis by (simp add: be_digits_0)
  next
    case False
    with 1(2) obtain k' where k: "k = Suc k'" by (cases k) auto
    with 1(2) have "n div 256 < 256 ^ k'"
      by (simp add: less_mult_imp_div_less mult.commute)
    with 1(1)[OF False this] False k show ?thesis by (simp add: be_digits_pos[of n])
  qed
qed

lemma be_digits_big_endian_to_int:
  "bs \<noteq> [] \<Longrightarrow> hd bs \<noteq> 0 \<Longrightarrow> be_digits (big_endian_to_int bs) = bs"
proof (induction bs rule: rev_induct)
  case Nil
  then show ?case by simp
next
  case (snoc b bs)
  let ?n = "big_endian_to_int bs * 256 + unat b"
  have d: "?n div 256 = big_endian_to_int bs" using unat_byte_less[of b] by simp
  have m: "?n mod 256 = unat b" using unat_byte_less[of b] by simp
  show ?case
  proof (cases "bs = []")
    case True
    with snoc(3) have "b \<noteq> 0" by simp
    then have "0 < unat b" by (simp add: unat_gt_0)
    with True unat_byte_less[of b] show ?thesis
      by (simp add: big_endian_to_int_def be_digits_pos[of "unat b"] be_digits_0)
  next
    case False
    with snoc have ih: "be_digits (big_endian_to_int bs) = bs" by simp
    with False have "big_endian_to_int bs \<noteq> 0" using be_digits_eq_Nil by metis
    then have "0 < ?n" by simp
    from be_digits_pos[OF this] d m ih show ?thesis
      by (simp add: big_endian_to_int_snoc)
  qed
qed

lemma big_endian_to_int_less: "big_endian_to_int bs < 256 ^ length bs"
proof (induction bs rule: rev_induct)
  case Nil
  then show ?case by (simp add: big_endian_to_int_Nil)
next
  case (snoc b bs)
  have "big_endian_to_int bs * 256 + unat b < (big_endian_to_int bs + 1) * 256"
    using unat_byte_less[of b] by simp
  also have "\<dots> \<le> 256 ^ length bs * 256"
    using snoc by (intro mult_le_mono1) simp
  finally show ?case by (simp add: big_endian_to_int_snoc)
qed

section \<open>The length prefix\<close>

lemma int_to_big_endian_pos: "0 < n \<Longrightarrow> int_to_big_endian n = be_digits n"
  by (simp add: int_to_big_endian_def)

lemma LONG_LENGTH_eq: "LONG_LENGTH = 2 ^ 64"
  by (simp add: LONG_LENGTH_def)

lemma length_int_to_big_endian:
  assumes "0 < n" "n < 2 ^ 64"
  shows "length (int_to_big_endian n) \<le> 8" "0 < length (int_to_big_endian n)"
proof -
  from assms(2) have "n < 256 ^ 8" by simp
  from length_be_digits[OF this] assms(1) show "length (int_to_big_endian n) \<le> 8"
    by (simp add: int_to_big_endian_pos)
  from assms(1) show "0 < length (int_to_big_endian n)"
    by (simp add: int_to_big_endian_pos be_digits_eq_Nil)
qed

lemma length_prefix_short:
  "len < 56 \<Longrightarrow> offset + len < 256 \<Longrightarrow> length_prefix len offset = Inr [of_nat (offset + len)]"
  by (simp add: length_prefix_def ALL_BYTES_def)

lemma length_prefix_long:
  assumes "56 \<le> len" "len < 2 ^ 64" "offset \<le> 192"
  shows "length_prefix len offset =
           Inr (of_nat (offset + 55 + length (int_to_big_endian len)) # int_to_big_endian len)"
proof -
  from assms have pos: "0 < len" by simp
  from length_int_to_big_endian(1)[OF pos assms(2)] assms(3)
  have "offset + 56 - 1 + length (int_to_big_endian len) < 256" by simp
  moreover have "offset + 56 - 1 = offset + 55" by simp
  ultimately show ?thesis using assms(1,2)
    by (simp add: length_prefix_def ALL_BYTES_def LONG_LENGTH_eq Let_def del: One_nat_def)
qed

lemma length_prefix_too_long:
  "2 ^ 64 \<le> len \<Longrightarrow> length_prefix len offset = Inl ValueError"
  by (simp add: length_prefix_def LONG_LENGTH_eq)

text \<open>
  C5: for an offset of 0x80 or 0xC0, \<^verbatim>\<open>length_prefix\<close> returns the single byte
  \<open>offset + len\<close> when \<open>len < 56\<close>; for \<open>56 \<le> len < 2^64\<close> it returns the byte
  \<open>offset + 55 + length L\<close> followed by \<open>L\<close>, the big-endian digits of \<open>len\<close>, which are
  not empty, have no leading zero and read back as \<open>len\<close>; for \<open>len \<ge> 2^64\<close> it raises
  ValueError, which \<^verbatim>\<open>encode_raw\<close> reports as the EncodingError 'Item too big to encode'.
  No byte value wraps around.
\<close>

theorem length_prefix_rules:
  "offset = 128 \<or> offset = 192 \<Longrightarrow>
     (len < 56 \<longrightarrow>
        length_prefix len offset = Inr [of_nat (offset + len)] \<and> offset + len < 256) \<and>
     (56 \<le> len \<and> len < 2 ^ 64 \<longrightarrow>
        (let L = int_to_big_endian len in
           length_prefix len offset = Inr (of_nat (offset + 55 + length L) # L) \<and>
           offset + 55 + length L < 256 \<and>
           L \<noteq> [] \<and> hd L \<noteq> 0 \<and> big_endian_to_int L = len)) \<and>
     (2 ^ 64 \<le> len \<longrightarrow>
        length_prefix len offset = Inl ValueError \<and>
        (\<forall>payload. length payload = len \<longrightarrow>
           add_prefix payload offset = Inl (EncodingError ItemTooBig)))"
proof (intro conjI impI)
  assume o: "offset = 128 \<or> offset = 192" and l: "len < 56"
  then show "offset + len < 256" by auto
  with l show "length_prefix len offset = Inr [of_nat (offset + len)]"
    by (rule length_prefix_short)
next
  assume o: "offset = 128 \<or> offset = 192" and l: "56 \<le> len \<and> len < 2 ^ 64"
  then have pos: "0 < len" and le: "offset \<le> 192" by auto
  have "length_prefix len offset =
          Inr (of_nat (offset + 55 + length (int_to_big_endian len)) # int_to_big_endian len)"
    using l le by (intro length_prefix_long) simp_all
  moreover have "offset + 55 + length (int_to_big_endian len) < 256"
    using length_int_to_big_endian(1)[OF pos] l le by simp
  moreover have "int_to_big_endian len \<noteq> []"
    using length_int_to_big_endian(2)[OF pos] l by simp
  moreover have "hd (int_to_big_endian len) \<noteq> 0"
    using hd_be_digits[OF pos] pos by (simp add: int_to_big_endian_pos)
  moreover have "big_endian_to_int (int_to_big_endian len) = len"
    using pos by (simp add: int_to_big_endian_pos big_endian_to_int_be_digits)
  ultimately show "let L = int_to_big_endian len in
           length_prefix len offset = Inr (of_nat (offset + 55 + length L) # L) \<and>
           offset + 55 + length L < 256 \<and>
           L \<noteq> [] \<and> hd L \<noteq> 0 \<and> big_endian_to_int L = len"
    by (simp add: Let_def)
next
  assume l: "2 ^ 64 \<le> len"
  then show "length_prefix len offset = Inl ValueError" by (rule length_prefix_too_long)
  then show "\<forall>payload. length payload = len \<longrightarrow>
           add_prefix payload offset = Inl (EncodingError ItemTooBig)"
    by (simp add: add_prefix_def)
qed

lemma be_digits_1024: "int_to_big_endian 1024 = [4, 0]"
  by (simp add: int_to_big_endian_def be_digits.simps[of 1024] be_digits.simps[of 4]
        be_digits.simps[of 0])

theorem length_prefix_rules_witness:
  "length_prefix 3 128 = Inr [0x83] \<and>
   length_prefix 1024 128 = Inr [0xB9, 0x04, 0x00] \<and>
   length_prefix (2 ^ 64) 192 = Inl ValueError \<and>
   add_prefix (replicate (2 ^ 64) 0) 192 = Inl (EncodingError ItemTooBig)"
  using length_prefix_rules [of 128 3] length_prefix_rules [of 128 1024]
    length_prefix_rules [of 192 "2 ^ 64"]
  by (simp add: be_digits_1024 Let_def)

text \<open>
  C6: a leaf of length 1 whose byte is below 128 is encoded as that byte alone, without a
  prefix; so the byte strings 0x00 and 0x7f are their own encodings.
\<close>

theorem encode_raw_single_byte:
  "(length item = 1 \<and> unat (item ! 0) < 128 \<longrightarrow> encode_raw (PyBytes item) = Inr item) \<and>
   encode_raw (PyBytes [0x00]) = Inr [0x00] \<and>
   encode_raw (PyBytes [0x7f]) = Inr [0x7f]"
  by simp

theorem encode_raw_single_byte_witness:
  "length [0x05 :: byte] = 1 \<and> unat ([0x05 :: byte] ! 0) < 128 \<and>
   encode_raw (PyBytes [0x05]) = Inr [0x05]"
  using encode_raw_single_byte [of "[0x05]"] by simp

section \<open>Canonical form of prefixes\<close>

lemma slice_one: "slice rlp i (i + 1) = (if i < length rlp then [rlp ! i] else [])"
  by (simp add: slice_def take_Suc_conv_app_nth hd_drop_conv_nth take_Suc)

lemma slice_one_eq_zero:
  "slice rlp (Suc start) (Suc (Suc start)) = [0] \<longleftrightarrow> getitem rlp (Suc start) = Inr 0"
  using slice_one[of rlp "Suc start"] by (auto simp: getitem_def)

lemma slice_one_eq_zero':
  "slice rlp (start + 1) (Suc (Suc start)) = [0] \<longleftrightarrow> getitem rlp (start + 1) = Inr 0"
  using slice_one_eq_zero[of rlp start] by simp

lemma consume_item_error:
  "consume_length_prefix rlp start = Inl e \<Longrightarrow> consume_item rlp start = Inl e"
  by (simp add: consume_item_def)

lemma decode_error:
  "consume_item rlp 0 = Inl (DecodingError r) \<Longrightarrow>
     decode (PyBytes rlp) strict = Inl (DecodingError r)"
  by (simp add: decode_def)

lemma short_string_single_byte:
  assumes "getitem rlp start = Inr b" "unat b = 0x81"
      and "getitem rlp (start + 1) = Inr b1" "unat b1 < 0x80"
  shows "consume_length_prefix rlp start = Inl (DecodingError ShortStringSingleByte)"
  using assms by (simp add: consume_length_prefix_def SHORT_STRING_def)

lemma length_starts_with_zero:
  assumes "getitem rlp start = Inr b" "0xB8 \<le> unat b \<and> unat b < 0xC0 \<or> 0xF8 \<le> unat b"
      and "getitem rlp (start + 1) = Inr 0"
  shows "consume_length_prefix rlp start = Inl (DecodingError LengthStartsWithZero)"
  using assms
  by (auto simp: consume_length_prefix_def SHORT_STRING_def slice_one_eq_zero Let_def)

lemma long_string_for_short:
  assumes "getitem rlp start = Inr b" "0xB8 \<le> unat b" "unat b < 0xC0"
      and "big_endian_to_int (slice rlp (start + 1) (start + 1 + (unat b - 0xB7))) < 56"
  shows "consume_length_prefix rlp start =
           Inl (DecodingError (if getitem rlp (start + 1) = Inr 0 then LengthStartsWithZero
                               else LongStringForShort))"
  using assms
  by (auto simp: consume_length_prefix_def SHORT_STRING_def Let_def slice_one_eq_zero)

lemma long_list_for_short:
  assumes "getitem rlp start = Inr b" "0xF8 \<le> unat b"
      and "big_endian_to_int (slice rlp (start + 1) (start + 1 + (unat b - 0xF7))) < 56"
  shows "consume_length_prefix rlp start =
           Inl (DecodingError (if getitem rlp (start + 1) = Inr 0 then LengthStartsWithZero
                               else LongListForShort))"
proof -
  have "unat b - 192 - 56 + 1 = unat b - 0xF7" using assms(2) by simp
  with assms show ?thesis
    by (auto simp: consume_length_prefix_def SHORT_STRING_def Let_def slice_one_eq_zero'
             simp del: One_nat_def)
qed

text \<open>
  C3: reading a prefix at any position of any input enforces the four canonicality checks.
  The prefix 0x81 before a byte below 0x80 is refused; a long-form string or list whose
  first length byte is 0x00 is refused; a long-form string and a long-form list whose
  length field reads as less than 56 are refused. In each case \<^verbatim>\<open>consume_item\<close> raises the
  same DecodingError and returns no value, and so does \<^verbatim>\<open>decode\<close> when the prefix is the
  root's, in strict and in non-strict mode.
\<close>

theorem canonical_checks_enforced:
  "(getitem rlp start = Inr b \<and> unat b = 0x81 \<and>
      getitem rlp (start + 1) = Inr b1 \<and> unat b1 < 0x80 \<longrightarrow>
        consume_length_prefix rlp start = Inl (DecodingError ShortStringSingleByte)) \<and>
   (getitem rlp start = Inr b \<and> (0xB8 \<le> unat b \<and> unat b < 0xC0 \<or> 0xF8 \<le> unat b) \<and>
      getitem rlp (start + 1) = Inr 0 \<longrightarrow>
        consume_length_prefix rlp start = Inl (DecodingError LengthStartsWithZero)) \<and>
   (getitem rlp start = Inr b \<and> 0xB8 \<le> unat b \<and> unat b < 0xC0 \<and>
      big_endian_to_int (slice rlp (start + 1) (start + 1 + (unat b - 0xB7))) < 56 \<longrightarrow>
        consume_length_prefix rlp start =
          Inl (DecodingError (if getitem rlp (start + 1) = Inr 0 then LengthStartsWithZero
                              else LongStringForShort))) \<and>
   (getitem rlp start = Inr b \<and> 0xF8 \<le> unat b \<and>
      big_endian_to_int (slice rlp (start + 1) (start + 1 + (unat b - 0xF7))) < 56 \<longrightarrow>
        consume_length_prefix rlp start =
          Inl (DecodingError (if getitem rlp (start + 1) = Inr 0 then LengthStartsWithZero
                              else LongListForShort))) \<and>
   (consume_length_prefix rlp start = Inl (DecodingError r) \<longrightarrow>
      consume_item rlp start = Inl (DecodingError r)) \<and>
   (consume_length_prefix rlp 0 = Inl (DecodingError r) \<longrightarrow>
      decode (PyBytes rlp) strict = Inl (DecodingError r))"
proof (intro conjI impI)
  assume "getitem rlp start = Inr b \<and> unat b = 0x81 \<and>
      getitem rlp (start + 1) = Inr b1 \<and> unat b1 < 0x80"
  then show "consume_length_prefix rlp start = Inl (DecodingError ShortStringSingleByte)"
    using short_string_single_byte[of rlp start b b1] by simp
next
  assume "getitem rlp start = Inr b \<and> (0xB8 \<le> unat b \<and> unat b < 0xC0 \<or> 0xF8 \<le> unat b) \<and>
      getitem rlp (start + 1) = Inr 0"
  then show "consume_length_prefix rlp start = Inl (DecodingError LengthStartsWithZero)"
    using length_starts_with_zero[of rlp start b] by simp
next
  assume "getitem rlp start = Inr b \<and> 0xB8 \<le> unat b \<and> unat b < 0xC0 \<and>
      big_endian_to_int (slice rlp (start + 1) (start + 1 + (unat b - 0xB7))) < 56"
  then show "consume_length_prefix rlp start =
          Inl (DecodingError (if getitem rlp (start + 1) = Inr 0 then LengthStartsWithZero
                              else LongStringForShort))"
    using long_string_for_short[of rlp start b] by blast
next
  assume "getitem rlp start = Inr b \<and> 0xF8 \<le> unat b \<and>
      big_endian_to_int (slice rlp (start + 1) (start + 1 + (unat b - 0xF7))) < 56"
  then show "consume_length_prefix rlp start =
          Inl (DecodingError (if getitem rlp (start + 1) = Inr 0 then LengthStartsWithZero
                              else LongListForShort))"
    using long_list_for_short[of rlp start b] by blast
next
  assume "consume_length_prefix rlp start = Inl (DecodingError r)"
  then show "consume_item rlp start = Inl (DecodingError r)"
    by (rule consume_item_error)
next
  assume "consume_length_prefix rlp 0 = Inl (DecodingError r)"
  then show "decode (PyBytes rlp) strict = Inl (DecodingError r)"
    by (intro decode_error consume_item_error)
qed

lemma big_endian_to_int_55: "big_endian_to_int [0x37] = 55"
  by (simp add: big_endian_to_int_def)

theorem canonical_checks_enforced_witness:
  "consume_item [0x81, 0x7F] 0 = Inl (DecodingError ShortStringSingleByte) \<and>
   decode (PyBytes [0x81, 0x7F]) True = Inl (DecodingError ShortStringSingleByte) \<and>
   decode (PyBytes [0x81, 0x7F]) False = Inl (DecodingError ShortStringSingleByte) \<and>
   consume_item [0xB9, 0x00, 0x40] 0 = Inl (DecodingError LengthStartsWithZero) \<and>
   consume_item [0xF9, 0x00, 0x40] 0 = Inl (DecodingError LengthStartsWithZero) \<and>
   consume_item [0xB8, 0x37] 0 = Inl (DecodingError LongStringForShort) \<and>
   consume_item [0xF8, 0x37] 0 = Inl (DecodingError LongListForShort)"
  using
    canonical_checks_enforced [of "[0x81, 0x7F]" 0 "0x81" "0x7F" ShortStringSingleByte True]
    canonical_checks_enforced [of "[0x81, 0x7F]" 0 "0x81" "0x7F" ShortStringSingleByte False]
    canonical_checks_enforced [of "[0xB9, 0x00, 0x40]" 0 "0xB9" 0 LengthStartsWithZero True]
    canonical_checks_enforced [of "[0xF9, 0x00, 0x40]" 0 "0xF9" 0 LengthStartsWithZero True]
    canonical_checks_enforced [of "[0xB8, 0x37]" 0 "0xB8" 0 LongStringForShort True]
    canonical_checks_enforced [of "[0xF8, 0x37]" 0 "0xF8" 0 LongListForShort True]
  by (simp add: getitem_def slice_def big_endian_to_int_55)

section \<open>The list loop\<close>

lemma consume_children_exit:
  "consume_children rlp end items list_rlp next_item_start = Inr (items', list_rlp', e) \<Longrightarrow>
     end \<le> e"
proof (induction rlp "end" items list_rlp next_item_start
       rule: consume_payload_consume_children.induct(2)
               [where P = "\<lambda>rlp prefix start t len. True"])
  case (3 rlp "end" items list_rlp next_item_start)
  show ?case
  proof (cases "next_item_start < end")
    case False
    with 3(3) show ?thesis by (simp add: consume_children.simps)
  next
    case True
    from 3(3) True obtain p t l s item nxt where
      lp: "consume_length_prefix rlp next_item_start = Inr (p, t, l, s)" and
      cp: "consume_payload rlp p s t l = Inr (item, nxt)" and
      cc: "consume_children rlp end (items @ [item]) (list_rlp @ item_rlp item) nxt
             = Inr (items', list_rlp', e)"
      by (auto simp: consume_children.simps[of rlp "end" items list_rlp next_item_start]
               split: sum.splits)
    show ?thesis using 3(2)[OF True lp refl refl refl cp refl cc] .
  qed
qed simp_all



lemma consume_children_step:
  assumes "next_item_start < end" "consume_item rlp next_item_start = Inr (d, e)"
  shows "consume_children rlp end items list_rlp next_item_start =
           consume_children rlp end (items @ [d]) (list_rlp @ item_rlp d) e"
proof -
  from assms(2) obtain p t l s where
    "consume_length_prefix rlp next_item_start = Inr (p, t, l, s)"
    "consume_payload rlp p s t l = Inr (d, e)"
    by (auto simp: consume_item_def split: sum.splits)
  with assms(1) show ?thesis
    by (simp add: consume_children.simps[of rlp "end" items list_rlp next_item_start])
qed



















section \<open>Truncated input\<close>

text \<open>
  C10: the input 0x83 0x61 0x62 is truncated: its prefix declares a string of 3 bytes
  starting at offset 1, which ends past the 3 bytes of the buffer. The payload is taken
  as a slice, which stops at the end of the buffer, so \<^verbatim>\<open>decode\<close> with \<^verbatim>\<open>strict=False\<close> raises
  nothing and returns the 2-byte leaf 0x61 0x62, shorter than the 3 bytes declared.
\<close>

theorem decode_truncated_payload_non_strict:
  "consume_length_prefix [0x83, 0x61, 0x62] 0 = Inr ([0x83], bytes_type, 3, 1) \<and>
   length [0x83, 0x61, 0x62 :: byte] < 1 + 3 \<and>
   decode (PyBytes [0x83, 0x61, 0x62]) False = Inr (PyBytes [0x61, 0x62]) \<and>
   length [0x61, 0x62 :: byte] < 3"
  by code_simp

text \<open>
  C4: inputs that need bytes past the end of the buffer are not all reported as 'RLP
  string too short'. Only an index read past the end is: the empty input, and 0x81 with
  nothing after it. A declared payload or length field that runs past the end is read by
  slicing: in non-strict mode 0x83 0x61 0x62, the list 0xC4 0x83 0x61 and 0xB9 0x38 are
  decoded to a value; in strict mode they are refused as having superfluous bytes; and
  0xB8 alone is refused as a non-canonical long string.
\<close>

theorem decode_truncated_input_results:
  "decode (PyBytes []) False = Inl (DecodingError StringTooShort) \<and>
   decode (PyBytes [0x81]) False = Inl (DecodingError StringTooShort) \<and>
   decode (PyBytes [0x83, 0x61, 0x62]) False = Inr (PyBytes [0x61, 0x62]) \<and>
   decode (PyBytes [0x83, 0x61, 0x62]) True = Inl (DecodingError SuperfluousBytes) \<and>
   decode (PyBytes [0xC4, 0x83, 0x61]) False = Inr (PyList [PyBytes [0x61]]) \<and>
   decode (PyBytes [0xC4, 0x83, 0x61]) True = Inl (DecodingError SuperfluousBytes) \<and>
   decode (PyBytes [0xB9, 0x38]) False = Inr (PyBytes []) \<and>
   decode (PyBytes [0xB8]) False = Inl (DecodingError LongStringForShort) \<and>
   decode (PyBytes [0xB8]) True = Inl (DecodingError LongStringForShort)"
  by code_simp

section \<open>Inference of the sedes\<close>

text \<open>
  C7: \<^verbatim>\<open>infer_sedes\<close> applies seven rules in order and the first that matches decides:
  the class of the object when it is a sedes; \<^verbatim>\<open>big_endian_int\<close> for a non-negative
  integer that is not a boolean; \<^verbatim>\<open>binary\<close> for a byte string; a \<^verbatim>\<open>List\<close> of the sedes
  inferred for the elements of a sequence that is not a text; \<^verbatim>\<open>boolean\<close> for a boolean;
  \<^verbatim>\<open>text\<close> for a text; TypeError otherwise. So every boolean gets \<^verbatim>\<open>boolean\<close> and never
  \<^verbatim>\<open>big_endian_int\<close>, although it is an \<^verbatim>\<open>int\<close>, and a negative integer gets no sedes.
\<close>

theorem infer_sedes_ordered_rules:
  "(is_sedes (class_of obj) \<longrightarrow> infer_sedes obj = Inr (ClassSedes (class_of obj))) \<and>
   (\<not> is_sedes (class_of obj) \<and>
      (\<not> isinstance_bool obj \<and> isinstance_int obj \<and> 0 \<le> int_value obj) \<longrightarrow>
        infer_sedes obj = Inr big_endian_int) \<and>
   (\<not> is_sedes (class_of obj) \<and>
      \<not> (\<not> isinstance_bool obj \<and> isinstance_int obj \<and> 0 \<le> int_value obj) \<and>
      is_valid_type obj \<longrightarrow>
        infer_sedes obj = Inr binary) \<and>
   (\<not> is_sedes (class_of obj) \<and>
      \<not> (\<not> isinstance_bool obj \<and> isinstance_int obj \<and> 0 \<le> int_value obj) \<and>
      \<not> is_valid_type obj \<and>
      (\<not> isinstance_str obj \<and> isinstance_Sequence obj) \<longrightarrow>
        infer_sedes obj =
          (case collect (map infer_sedes (elements obj)) of
             Inl e \<Rightarrow> Inl e
           | Inr subs \<Rightarrow> Inr (List subs))) \<and>
   (\<not> is_sedes (class_of obj) \<and>
      \<not> (\<not> isinstance_bool obj \<and> isinstance_int obj \<and> 0 \<le> int_value obj) \<and>
      \<not> is_valid_type obj \<and>
      \<not> (\<not> isinstance_str obj \<and> isinstance_Sequence obj) \<and>
      isinstance_bool obj \<longrightarrow>
        infer_sedes obj = Inr boolean) \<and>
   (\<not> is_sedes (class_of obj) \<and>
      \<not> (\<not> isinstance_bool obj \<and> isinstance_int obj \<and> 0 \<le> int_value obj) \<and>
      \<not> is_valid_type obj \<and>
      \<not> (\<not> isinstance_str obj \<and> isinstance_Sequence obj) \<and>
      \<not> isinstance_bool obj \<and>
      isinstance_str obj \<longrightarrow>
        infer_sedes obj = Inr text) \<and>
   (\<not> is_sedes (class_of obj) \<and>
      \<not> (\<not> isinstance_bool obj \<and> isinstance_int obj \<and> 0 \<le> int_value obj) \<and>
      \<not> is_valid_type obj \<and>
      \<not> (\<not> isinstance_str obj \<and> isinstance_Sequence obj) \<and>
      \<not> isinstance_bool obj \<and>
      \<not> isinstance_str obj \<longrightarrow>
        infer_sedes obj = Inl TypeError) \<and>
   infer_sedes (PyBool b) = Inr boolean \<and>
   infer_sedes (PyBool b) \<noteq> Inr big_endian_int \<and>
   infer_sedes (PyInt n) = (if 0 \<le> n then Inr big_endian_int else Inl TypeError) \<and>
   infer_sedes (PyBytes bs) = Inr binary \<and>
   infer_sedes (PyList xs) =
     (case collect (map infer_sedes xs) of
        Inl e \<Rightarrow> Inl e
      | Inr subs \<Rightarrow> Inr (List subs)) \<and>
   infer_sedes (PyStr s) = Inr text \<and>
   infer_sedes PyNone = Inl TypeError"
proof -
  have b: "infer_sedes (PyBool b) = Inr boolean"
    by (subst infer_sedes.simps) (simp add: is_sedes_def isinstance_Sequence_def)
  have i: "infer_sedes (PyInt n) = (if 0 \<le> n then Inr big_endian_int else Inl TypeError)"
    by (subst infer_sedes.simps) (simp add: is_sedes_def isinstance_Sequence_def)
  have bs: "infer_sedes (PyBytes bs) = Inr binary"
    by (subst infer_sedes.simps) (simp add: is_sedes_def isinstance_Sequence_def)
  have l: "infer_sedes (PyList xs) =
     (case collect (map infer_sedes xs) of
        Inl e \<Rightarrow> Inl e
      | Inr subs \<Rightarrow> Inr (List subs))"
    by (subst infer_sedes.simps) (simp add: is_sedes_def isinstance_Sequence_def)
  have s: "infer_sedes (PyStr s) = Inr text"
    by (subst infer_sedes.simps) (simp add: is_sedes_def isinstance_Sequence_def)
  have n: "infer_sedes PyNone = Inl TypeError"
    by (subst infer_sedes.simps) (simp add: is_sedes_def isinstance_Sequence_def)
  have g: "infer_sedes obj =
      (if is_sedes (class_of obj) then Inr (ClassSedes (class_of obj))
      else if \<not> isinstance_bool obj \<and> isinstance_int obj \<and> int_value obj \<ge> 0
        then Inr big_endian_int
      else if is_valid_type obj then Inr binary
      else if \<not> isinstance_str obj \<and> isinstance_Sequence obj then
        (case collect (map infer_sedes (elements obj)) of
           Inl e \<Rightarrow> Inl e
         | Inr subs \<Rightarrow> Inr (List subs))
      else if isinstance_bool obj then Inr boolean
      else if isinstance_str obj then Inr text
      else Inl TypeError)"
    by (rule infer_sedes.simps)
  show ?thesis
    unfolding b i bs l s n
    by (intro conjI impI; (subst g)?; auto)
qed

theorem infer_sedes_ordered_rules_witness:
  "infer_sedes (PyInstance \<lparr>class_name = ''Transaction'', cls_is_sedes = True,
       cls_is_Serializable = True, cls_is_Sequence = True\<rparr> [PyInt 7] None) =
     Inr (ClassSedes \<lparr>class_name = ''Transaction'', cls_is_sedes = True,
       cls_is_Serializable = True, cls_is_Sequence = True\<rparr>) \<and>
   infer_sedes (PyInt 5) = Inr big_endian_int \<and>
   infer_sedes (PyBytes [1]) = Inr binary \<and>
   infer_sedes (PyList [PyBool True, PyInt 1]) = Inr (List [boolean, big_endian_int]) \<and>
   infer_sedes (PyBool True) = Inr boolean \<and>
   infer_sedes (PyStr ''cat'') = Inr text \<and>
   infer_sedes PyNone = Inl TypeError \<and>
   infer_sedes (PyInt (- 1)) = Inl TypeError"
  using
    infer_sedes_ordered_rules [where obj = "PyInstance \<lparr>class_name = ''Transaction'',
       cls_is_sedes = True, cls_is_Serializable = True, cls_is_Sequence = True\<rparr> [PyInt 7] None"]
    infer_sedes_ordered_rules [where obj = "PyInt 5"]
    infer_sedes_ordered_rules [where obj = "PyBytes [1]"]
    infer_sedes_ordered_rules [where obj = "PyList [PyBool True, PyInt 1]"
       and b = True and n = 1]
    infer_sedes_ordered_rules [where obj = "PyBool True"]
    infer_sedes_ordered_rules [where obj = "PyStr ''cat''"]
    infer_sedes_ordered_rules [where obj = "PyNone"]
    infer_sedes_ordered_rules [where obj = "PyInt (- 1)"]
  by (simp add: is_sedes_def isinstance_Sequence_def)

section \<open>The cache of a record\<close>

lemma Serializable_is_instance:
  "isinstance_Serializable obj \<Longrightarrow> \<exists>c xs cached. obj = PyInstance c xs cached"
  by (cases obj) (simp_all add: isinstance_Serializable_def)

lemma infer_sedes_ignores_cache:
  "infer_sedes (PyInstance c xs cached) = infer_sedes (PyInstance c xs cached')"
  by (subst (1 2) infer_sedes.simps) (simp add: isinstance_Sequence_def)

lemma encode_raw_ignores_cache:
  "encode_raw (PyInstance c xs cached) = encode_raw (PyInstance c xs cached')"
  by simp

lemma encode_cached:
  assumes "isinstance_Serializable obj" "cached_rlp_of obj = Some c" "c \<noteq> []"
  shows "encode serialize truth obj None infer_serializer cache = Inr (c, obj)"
  using assms by (simp add: encode_def)

lemma encode_stores:
  assumes "encode serialize truth obj sedes infer_serializer cache = Inr (result, obj')"
      and "isinstance_Serializable obj" "cache" "sedes = None"
  shows "obj' = set_cached_rlp obj result" "cached_rlp_of obj' = Some result"
proof -
  from assms(2) obtain c xs cached where obj: "obj = PyInstance c xs cached"
    using Serializable_is_instance by blast
  show "obj' = set_cached_rlp obj result"
    using assms unfolding obj
    by (auto simp: encode_def Let_def split: if_splits sum.splits)
  then show "cached_rlp_of obj' = Some result" by (simp add: obj)
qed

lemma encode_keeps:
  assumes "encode serialize truth obj sedes infer_serializer cache = Inr (result, obj')"
      and "\<not> (isinstance_Serializable obj \<and> cache \<and> sedes = None)"
  shows "obj' = obj"
  using assms
  by (auto simp: encode_def Let_def split: if_splits sum.splits)

lemma encode_with_sedes_ignores_cache:
  assumes "\<And>sd' cached'. serialize sd' (PyInstance c xs cached') =
             serialize sd' (PyInstance c xs cached)"
  shows "map_sum id fst (encode serialize truth (PyInstance c xs cached_a) (Some sd)
            infer_serializer cache) =
         map_sum id fst (encode serialize truth (PyInstance c xs cached_b) (Some sd)
            infer_serializer cache)"
proof -
  have s: "\<And>sd'. serialize sd' (PyInstance c xs cached_a) = serialize sd' (PyInstance c xs cached_b)"
    using assms[of _ cached_a] assms[of _ cached_b] by simp
  have i: "infer_sedes (PyInstance c xs cached_a) = infer_sedes (PyInstance c xs cached_b)"
    by (rule infer_sedes_ignores_cache)
  show ?thesis
    by (simp add: encode_def Let_def s i isinstance_Serializable_def
             split: sum.splits)
qed

lemma encode_with_truthy_sedes:
  assumes "truth sd" "serialize sd obj = Inr item" "encode_raw item = Inr result"
  shows "encode serialize truth obj (Some sd) infer_serializer cache = Inr (result, obj)"
  using assms by (simp add: encode_def)

lemma encode_with_falsy_sedes_inferred:
  assumes "\<not> truth sd" "infer_sedes obj = Inr inferred" "serialize inferred obj = Inr item"
      and "encode_raw item = Inr result"
  shows "encode serialize truth obj (Some sd) True cache = Inr (result, obj)"
  using assms by (simp add: encode_def)

lemma encode_with_falsy_sedes_raw:
  assumes "\<not> truth sd" "encode_raw obj = Inr result"
  shows "encode serialize truth obj (Some sd) False cache = Inr (result, obj)"
  using assms by (simp add: encode_def)

lemma encode_inferred:
  assumes "\<not> (isinstance_Serializable obj \<and> cached_rlp_of obj \<noteq> None \<and>
              cached_rlp_of obj \<noteq> Some [])"
      and "infer_sedes obj = Inr inferred" "serialize inferred obj = Inr item"
      and "encode_raw item = Inr result"
  shows "encode serialize truth obj None True cache =
           Inr (result, if isinstance_Serializable obj \<and> cache
                        then set_cached_rlp obj result else obj)"
  using assms by (auto simp: encode_def Let_def)

lemma encode_raw_item:
  assumes "\<not> (isinstance_Serializable obj \<and> cached_rlp_of obj \<noteq> None \<and>
              cached_rlp_of obj \<noteq> Some [])"
      and "encode_raw obj = Inr result"
  shows "encode serialize truth obj None False cache =
           Inr (result, if isinstance_Serializable obj \<and> cache
                        then set_cached_rlp obj result else obj)"
  using assms by (auto simp: encode_def Let_def)

text \<open>
  C8: \<^verbatim>\<open>encode\<close> uses the cache of a record only when no sedes is given. A record with a
  non-empty \<^verbatim>\<open>_cached_rlp\<close>, encoded without a sedes, gives the cached bytes whatever
  \<^verbatim>\<open>serialize\<close> would compute, and stays as it is. Without such a cache hit \<^verbatim>\<open>encode\<close>
  returns the raw encoding of the item that the given sedes, the inferred sedes or the
  object itself provides, and the object it leaves holds that result in \<^verbatim>\<open>_cached_rlp\<close>
  when it is a record, \<^verbatim>\<open>cache\<close> is true and no sedes was given, and is unchanged in every
  other case. With a sedes the object is unchanged and the result does not depend on
  \<^verbatim>\<open>_cached_rlp\<close>, as long as the sedes layer does not read it.
\<close>

theorem encode_cache_only_without_sedes:
  "(isinstance_Serializable obj \<and> cached_rlp_of obj = Some c \<and> c \<noteq> [] \<longrightarrow>
      encode serialize truth obj None infer_serializer cache = Inr (c, obj)) \<and>
   (encode serialize truth obj sedes infer_serializer cache = Inr (result, obj') \<longrightarrow>
      (isinstance_Serializable obj \<and> cache \<and> sedes = None \<longrightarrow>
         obj' = set_cached_rlp obj result \<and> cached_rlp_of obj' = Some result) \<and>
      (\<not> (isinstance_Serializable obj \<and> cache \<and> sedes = None) \<longrightarrow> obj' = obj) \<and>
      (sedes \<noteq> None \<longrightarrow> obj' = obj)) \<and>
   ((\<forall>sd' cached'. serialize sd' (PyInstance cl xs cached') =
                     serialize sd' (PyInstance cl xs cached)) \<longrightarrow>
      map_sum id fst (encode serialize truth (PyInstance cl xs cached_a) (Some sd)
            infer_serializer cache) =
      map_sum id fst (encode serialize truth (PyInstance cl xs cached_b) (Some sd)
            infer_serializer cache)) \<and>
   (\<not> (isinstance_Serializable obj \<and> cached_rlp_of obj \<noteq> None \<and>
         cached_rlp_of obj \<noteq> Some []) \<and>
      infer_sedes obj = Inr inferred \<and> serialize inferred obj = Inr item \<and>
      encode_raw item = Inr encoded \<longrightarrow>
        encode serialize truth obj None True cache =
          Inr (encoded, if isinstance_Serializable obj \<and> cache
                        then set_cached_rlp obj encoded else obj)) \<and>
   (\<not> (isinstance_Serializable obj \<and> cached_rlp_of obj \<noteq> None \<and>
         cached_rlp_of obj \<noteq> Some []) \<and>
      encode_raw obj = Inr encoded \<longrightarrow>
        encode serialize truth obj None False cache =
          Inr (encoded, if isinstance_Serializable obj \<and> cache
                        then set_cached_rlp obj encoded else obj)) \<and>
   (truth sd \<and> serialize sd obj = Inr item \<and> encode_raw item = Inr encoded \<longrightarrow>
      encode serialize truth obj (Some sd) infer_serializer cache = Inr (encoded, obj)) \<and>
   (\<not> truth sd \<and> infer_sedes obj = Inr inferred \<and> serialize inferred obj = Inr item \<and>
      encode_raw item = Inr encoded \<longrightarrow>
        encode serialize truth obj (Some sd) True cache = Inr (encoded, obj)) \<and>
   (\<not> truth sd \<and> encode_raw obj = Inr encoded \<longrightarrow>
      encode serialize truth obj (Some sd) False cache = Inr (encoded, obj))"
proof (intro conjI impI)
  assume "isinstance_Serializable obj \<and> cached_rlp_of obj = Some c \<and> c \<noteq> []"
  then show "encode serialize truth obj None infer_serializer cache = Inr (c, obj)"
    by (intro encode_cached) simp_all
next
  assume e: "encode serialize truth obj sedes infer_serializer cache = Inr (result, obj')"
    and h: "isinstance_Serializable obj \<and> cache \<and> sedes = None"
  from encode_stores[OF e] h
  show "obj' = set_cached_rlp obj result" "cached_rlp_of obj' = Some result" by simp_all
next
  assume e: "encode serialize truth obj sedes infer_serializer cache = Inr (result, obj')"
    and h: "\<not> (isinstance_Serializable obj \<and> cache \<and> sedes = None)"
  from encode_keeps[OF e h] show "obj' = obj" .
next
  assume e: "encode serialize truth obj sedes infer_serializer cache = Inr (result, obj')"
    and h: "sedes \<noteq> None"
  from encode_keeps[OF e] h show "obj' = obj" by simp
next
  assume "\<forall>sd' cached'. serialize sd' (PyInstance cl xs cached') =
                     serialize sd' (PyInstance cl xs cached)"
  then show "map_sum id fst (encode serialize truth (PyInstance cl xs cached_a) (Some sd)
            infer_serializer cache) =
      map_sum id fst (encode serialize truth (PyInstance cl xs cached_b) (Some sd)
            infer_serializer cache)"
    by (intro encode_with_sedes_ignores_cache[where cached = cached]) simp
next
  assume "\<not> (isinstance_Serializable obj \<and> cached_rlp_of obj \<noteq> None \<and>
         cached_rlp_of obj \<noteq> Some []) \<and>
      infer_sedes obj = Inr inferred \<and> serialize inferred obj = Inr item \<and>
      encode_raw item = Inr encoded"
  then show "encode serialize truth obj None True cache =
          Inr (encoded, if isinstance_Serializable obj \<and> cache
                        then set_cached_rlp obj encoded else obj)"
    by (intro encode_inferred[of obj inferred serialize item]) blast+
next
  assume "\<not> (isinstance_Serializable obj \<and> cached_rlp_of obj \<noteq> None \<and>
         cached_rlp_of obj \<noteq> Some []) \<and>
      encode_raw obj = Inr encoded"
  then show "encode serialize truth obj None False cache =
          Inr (encoded, if isinstance_Serializable obj \<and> cache
                        then set_cached_rlp obj encoded else obj)"
    by (intro encode_raw_item) blast+
next
  assume "truth sd \<and> serialize sd obj = Inr item \<and> encode_raw item = Inr encoded"
  then show "encode serialize truth obj (Some sd) infer_serializer cache = Inr (encoded, obj)"
    by (intro encode_with_truthy_sedes[of truth sd serialize obj item]) blast+
next
  assume "\<not> truth sd \<and> infer_sedes obj = Inr inferred \<and> serialize inferred obj = Inr item \<and>
      encode_raw item = Inr encoded"
  then show "encode serialize truth obj (Some sd) True cache = Inr (encoded, obj)"
    by (intro encode_with_falsy_sedes_inferred[of truth sd obj inferred serialize item]) blast+
next
  assume "\<not> truth sd \<and> encode_raw obj = Inr encoded"
  then show "encode serialize truth obj (Some sd) False cache = Inr (encoded, obj)"
    by (intro encode_with_falsy_sedes_raw) blast+
qed

lemma encode_cache_example_store:
  "encode (\<lambda>sd obj. Inr (PyList (elements obj))) (\<lambda>sd. True)
     (PyInstance \<lparr>class_name = ''Pair'', cls_is_sedes = True, cls_is_Serializable = True,
        cls_is_Sequence = True\<rparr> [PyBytes [0x01], PyBytes [0x02]] None) None True True =
   Inr ([0xC2, 0x01, 0x02],
     PyInstance \<lparr>class_name = ''Pair'', cls_is_sedes = True, cls_is_Serializable = True,
        cls_is_Sequence = True\<rparr> [PyBytes [0x01], PyBytes [0x02]] (Some [0xC2, 0x01, 0x02]))"
  by code_simp

lemma encode_cache_example_parts:
  "infer_sedes (PyInstance \<lparr>class_name = ''Pair'', cls_is_sedes = True,
        cls_is_Serializable = True, cls_is_Sequence = True\<rparr>
        [PyBytes [0x01], PyBytes [0x02]] None) =
     Inr (ClassSedes \<lparr>class_name = ''Pair'', cls_is_sedes = True,
        cls_is_Serializable = True, cls_is_Sequence = True\<rparr>)"
  "encode_raw (PyList [PyBytes [0x01], PyBytes [0x02]]) = Inr [0xC2, 0x01, 0x02]"
  by code_simp+

theorem encode_cache_only_without_sedes_witness:
  "encode (\<lambda>sd obj. Inr (PyList (elements obj))) (\<lambda>sd. True)
     (PyInstance \<lparr>class_name = ''Pair'', cls_is_sedes = True, cls_is_Serializable = True,
        cls_is_Sequence = True\<rparr> [PyBytes [0x01], PyBytes [0x02]] (Some [0x05])) None True True =
   Inr ([0x05],
     PyInstance \<lparr>class_name = ''Pair'', cls_is_sedes = True, cls_is_Serializable = True,
        cls_is_Sequence = True\<rparr> [PyBytes [0x01], PyBytes [0x02]] (Some [0x05])) \<and>
   cached_rlp_of
     (PyInstance \<lparr>class_name = ''Pair'', cls_is_sedes = True, cls_is_Serializable = True,
        cls_is_Sequence = True\<rparr> [PyBytes [0x01], PyBytes [0x02]] (Some [0xC2, 0x01, 0x02])) =
     Some [0xC2, 0x01, 0x02] \<and>
   map_sum id fst
     (encode (\<lambda>sd obj. Inr (PyList (elements obj))) (\<lambda>sd. True)
        (PyInstance \<lparr>class_name = ''Pair'', cls_is_sedes = True, cls_is_Serializable = True,
           cls_is_Sequence = True\<rparr> [PyBytes [0x01], PyBytes [0x02]] (Some [0x05]))
        (Some (List [binary, binary])) True True) =
   map_sum id fst
     (encode (\<lambda>sd obj. Inr (PyList (elements obj))) (\<lambda>sd. True)
        (PyInstance \<lparr>class_name = ''Pair'', cls_is_sedes = True, cls_is_Serializable = True,
           cls_is_Sequence = True\<rparr> [PyBytes [0x01], PyBytes [0x02]] None)
        (Some (List [binary, binary])) True True) \<and>
   encode (\<lambda>sd obj. Inr (PyList (elements obj))) (\<lambda>sd. True)
     (PyInstance \<lparr>class_name = ''Pair'', cls_is_sedes = True, cls_is_Serializable = True,
        cls_is_Sequence = True\<rparr> [PyBytes [0x01], PyBytes [0x02]] None) None True True =
   Inr ([0xC2, 0x01, 0x02],
     PyInstance \<lparr>class_name = ''Pair'', cls_is_sedes = True, cls_is_Serializable = True,
        cls_is_Sequence = True\<rparr> [PyBytes [0x01], PyBytes [0x02]] (Some [0xC2, 0x01, 0x02])) \<and>
   encode (\<lambda>sd obj. Inr (PyList (elements obj))) (\<lambda>sd. True)
     (PyInstance \<lparr>class_name = ''Pair'', cls_is_sedes = True, cls_is_Serializable = True,
        cls_is_Sequence = True\<rparr> [PyBytes [0x01], PyBytes [0x02]] None) None True False =
   Inr ([0xC2, 0x01, 0x02],
     PyInstance \<lparr>class_name = ''Pair'', cls_is_sedes = True, cls_is_Serializable = True,
        cls_is_Sequence = True\<rparr> [PyBytes [0x01], PyBytes [0x02]] None) \<and>
   encode (\<lambda>sd obj. Inr (PyList (elements obj))) (\<lambda>sd. True)
     (PyInstance \<lparr>class_name = ''Pair'', cls_is_sedes = True, cls_is_Serializable = True,
        cls_is_Sequence = True\<rparr> [PyBytes [0x01], PyBytes [0x02]] (Some [0x05]))
     (Some (List [binary, binary])) True True =
   Inr ([0xC2, 0x01, 0x02],
     PyInstance \<lparr>class_name = ''Pair'', cls_is_sedes = True, cls_is_Serializable = True,
        cls_is_Sequence = True\<rparr> [PyBytes [0x01], PyBytes [0x02]] (Some [0x05])) \<and>
   encode (\<lambda>sd obj. Inr (PyList (elements obj))) (\<lambda>sd. True)
     (PyList [PyBytes [0x01], PyBytes [0x02]]) None False True =
   Inr ([0xC2, 0x01, 0x02], PyList [PyBytes [0x01], PyBytes [0x02]])"
proof -
  let ?cl = "\<lparr>class_name = ''Pair'', cls_is_sedes = True, cls_is_Serializable = True,
        cls_is_Sequence = True\<rparr>"
  let ?xs = "[PyBytes [0x01], PyBytes [0x02]]"
  let ?ser = "\<lambda>(sd :: sedes) obj. Inr (PyList (elements obj)) :: exn + pyobj"
  let ?truth = "\<lambda>sd :: sedes. True"
  have ser: "\<forall>sd' cached'. ?ser sd' (PyInstance ?cl ?xs cached') =
                ?ser sd' (PyInstance ?cl ?xs None)"
    by simp
  have inst: "isinstance_Serializable (PyInstance ?cl ?xs (Some [0x05]))"
    "isinstance_Serializable (PyInstance ?cl ?xs None)"
    "\<not> isinstance_Serializable (PyList ?xs)"
    by (simp_all add: isinstance_Serializable_def)
  have item: "(Inr (PyList (elements (PyInstance ?cl ?xs None))) :: exn + pyobj) =
                Inr (PyList ?xs)"
    "(Inr (PyList (elements (PyInstance ?cl ?xs (Some [0x05])))) :: exn + pyobj) =
                Inr (PyList ?xs)"
    by simp_all
  have miss: "\<not> (isinstance_Serializable (PyInstance ?cl ?xs None) \<and>
      cached_rlp_of (PyInstance ?cl ?xs None) \<noteq> None \<and>
      cached_rlp_of (PyInstance ?cl ?xs None) \<noteq> Some [])"
    "\<not> (isinstance_Serializable (PyList ?xs) \<and>
      cached_rlp_of (PyList ?xs) \<noteq> None \<and> cached_rlp_of (PyList ?xs) \<noteq> Some [])"
    by simp_all
  note parts = encode_cache_example_parts
  note a = encode_cache_only_without_sedes
      [where obj = "PyInstance ?cl ?xs (Some [0x05])" and c = "[0x05]"
         and serialize = ?ser and truth = ?truth and infer_serializer = True and cache = True
         and sedes = "Some (List [binary, binary])" and result = "[0xC2, 0x01, 0x02]"
         and obj' = "PyInstance ?cl ?xs (Some [0x05])"
         and cl = ?cl and xs = ?xs and cached = None
         and cached_a = "Some [0x05]" and cached_b = None and sd = "List [binary, binary]"
         and item = "PyList ?xs" and encoded = "[0xC2, 0x01, 0x02]"]
  note b = encode_cache_only_without_sedes
      [where obj = "PyInstance ?cl ?xs None"
         and serialize = ?ser and truth = ?truth and infer_serializer = True and cache = True
         and sedes = None and result = "[0xC2, 0x01, 0x02]"
         and obj' = "PyInstance ?cl ?xs (Some [0xC2, 0x01, 0x02])"
         and inferred = "ClassSedes ?cl" and item = "PyList ?xs"
         and encoded = "[0xC2, 0x01, 0x02]"]
  note b' = encode_cache_only_without_sedes
      [where obj = "PyInstance ?cl ?xs None"
         and serialize = ?ser and truth = ?truth and cache = False
         and inferred = "ClassSedes ?cl" and item = "PyList ?xs"
         and encoded = "[0xC2, 0x01, 0x02]"]
  note r = encode_cache_only_without_sedes
      [where obj = "PyList ?xs"
         and serialize = ?ser and truth = ?truth and cache = True
         and encoded = "[0xC2, 0x01, 0x02]"]
  have hit: "encode ?ser ?truth (PyInstance ?cl ?xs (Some [0x05])) None True True =
          Inr ([0x05], PyInstance ?cl ?xs (Some [0x05]))"
    using a inst by simp
  have cached: "cached_rlp_of (PyInstance ?cl ?xs (Some [0xC2, 0x01, 0x02])) =
     Some [0xC2, 0x01, 0x02]"
    using b inst encode_cache_example_store by blast
  have same: "map_sum id fst
     (encode ?ser ?truth (PyInstance ?cl ?xs (Some [0x05]))
        (Some (List [binary, binary])) True True) =
   map_sum id fst
     (encode ?ser ?truth (PyInstance ?cl ?xs None)
        (Some (List [binary, binary])) True True)"
    using a ser by blast
  have "encode ?ser ?truth (PyInstance ?cl ?xs None) None True True =
          Inr ([0xC2, 0x01, 0x02],
               if isinstance_Serializable (PyInstance ?cl ?xs None) \<and> True
               then set_cached_rlp (PyInstance ?cl ?xs None) [0xC2, 0x01, 0x02]
               else PyInstance ?cl ?xs None)"
    using b miss(1) parts item(1) by blast
  then have stored: "encode ?ser ?truth (PyInstance ?cl ?xs None) None True True =
          Inr ([0xC2, 0x01, 0x02], PyInstance ?cl ?xs (Some [0xC2, 0x01, 0x02]))"
    using inst(2) by simp
  have "encode ?ser ?truth (PyInstance ?cl ?xs None) None True False =
          Inr ([0xC2, 0x01, 0x02],
               if isinstance_Serializable (PyInstance ?cl ?xs None) \<and> False
               then set_cached_rlp (PyInstance ?cl ?xs None) [0xC2, 0x01, 0x02]
               else PyInstance ?cl ?xs None)"
    using b' miss(1) parts item(1) by blast
  then have kept: "encode ?ser ?truth (PyInstance ?cl ?xs None) None True False =
          Inr ([0xC2, 0x01, 0x02], PyInstance ?cl ?xs None)"
    by simp
  have with_sedes: "encode ?ser ?truth (PyInstance ?cl ?xs (Some [0x05]))
          (Some (List [binary, binary])) True True =
          Inr ([0xC2, 0x01, 0x02], PyInstance ?cl ?xs (Some [0x05]))"
    using a parts(2) item(2) by blast
  have "encode ?ser ?truth (PyList ?xs) None False True =
          Inr ([0xC2, 0x01, 0x02],
               if isinstance_Serializable (PyList ?xs) \<and> True
               then set_cached_rlp (PyList ?xs) [0xC2, 0x01, 0x02] else PyList ?xs)"
    using r miss(2) parts(2) by blast
  then have raw: "encode ?ser ?truth (PyList ?xs) None False True =
          Inr ([0xC2, 0x01, 0x02], PyList ?xs)"
    using inst(3) by simp
  from hit cached same stored kept with_sedes raw show ?thesis by blast
qed

section \<open>Slices\<close>

lemma length_slice: "j \<le> length rlp \<Longrightarrow> length (slice rlp i j) = j - i"
  by (simp add: slice_def)

lemma slice_split:
  "i \<le> k \<Longrightarrow> k \<le> j \<Longrightarrow> slice rlp i j = slice rlp i k @ slice rlp k j"
proof -
  assume a: "i \<le> k" "k \<le> j"
  then have "j - i = (k - i) + (j - k)" by simp
  then have "take (j - i) (drop i rlp) =
      take (k - i) (drop i rlp) @ take (j - k) (drop (k - i) (drop i rlp))"
    by (simp only: take_add)
  with a show ?thesis by (simp add: slice_def)
qed

lemma slice_empty: "slice rlp i i = []"
  by (simp add: slice_def)

lemma slice_single: "i < length rlp \<Longrightarrow> slice rlp i (Suc i) = [rlp ! i]"
  using slice_one[of rlp i] by simp

lemma slice_Cons:
  "i < j \<Longrightarrow> i < length rlp \<Longrightarrow> slice rlp i j = rlp ! i # slice rlp (Suc i) j"
  using slice_split[of i "Suc i" j rlp] by (simp add: slice_single)

lemma slice_nth:
  "k < j - i \<Longrightarrow> j \<le> length rlp \<Longrightarrow> slice rlp i j ! k = rlp ! (i + k)"
  by (simp add: slice_def)

lemma slice_all: "slice rlp 0 (length rlp) = rlp"
  by (simp add: slice_def)

lemma int_to_big_endian_byte: "0 < unat b \<Longrightarrow> int_to_big_endian (unat b) = [b]"
  using unat_byte_less[of b]
  by (simp add: int_to_big_endian_def be_digits_pos[of "unat b"] be_digits_0)

lemma of_nat_unat_byte: "n = unat (b :: byte) \<Longrightarrow> of_nat n = b"
  by simp

section \<open>A prefix that is read is the prefix that is written\<close>

lemma add_prefix_eq:
  "length payload = l \<Longrightarrow> length_prefix l offset = Inr pfx \<Longrightarrow>
     add_prefix payload offset = Inr (pfx @ payload)"
  by (simp add: add_prefix_def)

lemma consume_length_prefix_bytes_sound:
  assumes lp: "consume_length_prefix rlp start = Inr (p, bytes_type, l, s)"
      and le: "s + l \<le> length rlp"
  shows "encode_raw (PyBytes (slice rlp s (s + l))) = Inr (p @ slice rlp s (s + l))"
    and "slice rlp start (s + l) = p @ slice rlp s (s + l)"
proof -
  from consume_length_prefix_progress(1)[OF lp] have st: "start < length rlp" .
  define b where "b = rlp ! start"
  define b0 where "b0 = unat b"
  have gi: "getitem rlp start = Inr b" using st by (simp add: getitem_def b_def)
  have len: "length (slice rlp s (s + l)) = l" using le by (simp add: length_slice)
  consider (single) "b0 < 128" | (short) "128 \<le> b0" "b0 < 184" | (long) "184 \<le> b0" "b0 < 192"
    | (list) "192 \<le> b0"
    by linarith
  then have "encode_raw (PyBytes (slice rlp s (s + l))) = Inr (p @ slice rlp s (s + l)) \<and>
     slice rlp start (s + l) = p @ slice rlp s (s + l)"
  proof cases
    case single
    with lp gi have r: "p = []" "l = 1" "s = start"
      by (simp_all add: consume_length_prefix_def b0_def)
    have "slice rlp start (Suc start) = [b]" using st by (simp add: slice_single b_def)
    with single r show ?thesis by (simp add: b0_def)
  next
    case short
    have pos: "0 < unat b" using short by (simp add: b0_def)
    from lp gi short have r: "p = [b]" "l = b0 - 128" "s = Suc start"
      by (auto simp: consume_length_prefix_def b0_def[symmetric] SHORT_STRING_def
            int_to_big_endian_byte[OF pos, unfolded b0_def[symmetric]]
            split: if_splits sum.splits)
    have sl: "slice rlp start (s + l) = b # slice rlp s (s + l)"
      using st r by (simp add: slice_Cons b_def)
    have ns: "\<not> (l = 1 \<and> unat (slice rlp s (s + l) ! 0) < 128)"
    proof
      assume a: "l = 1 \<and> unat (slice rlp s (s + l) ! 0) < 128"
      then have "b0 - 128 = 1" using r by simp
      moreover from a le r have "Suc start < length rlp" by simp
      moreover from a le r have "slice rlp s (s + l) ! 0 = rlp ! Suc start"
        by (simp add: slice_nth)
      ultimately show False using lp gi short a
        by (auto simp: consume_length_prefix_def b0_def[symmetric] SHORT_STRING_def
              getitem_def split: if_splits)
    qed
    have "l < 56" using r short by simp
    moreover have "128 + l = b0" using r short by simp
    ultimately have "length_prefix l 128 = Inr [b]"
      using short by (simp add: length_prefix_short of_nat_unat_byte[OF b0_def])
    from add_prefix_eq[OF len this]
    have "add_prefix (slice rlp s (s + l)) 128 = Inr (b # slice rlp s (s + l))" by simp
    moreover have "encode_raw (PyBytes (slice rlp s (s + l))) =
        add_prefix (slice rlp s (s + l)) 128"
      using ns by (simp only: encode_raw.simps len if_False)
    ultimately show ?thesis using sl by (simp only: r append_Cons append_Nil simp_thms)
  next
    case long
    define ll where "ll = b0 - 183"
    define len_prefix where "len_prefix = slice rlp (Suc start) (Suc start + ll)"
    have pos: "0 < unat b" using long by (simp add: b0_def)
    from lp gi long have nz: "slice rlp (Suc start) (Suc (Suc start)) \<noteq> [0]"
      and r: "p = b # len_prefix" "l = big_endian_to_int len_prefix" "s = Suc start + ll"
      and l56: "56 \<le> l"
      by (auto simp: consume_length_prefix_def b0_def[symmetric] SHORT_STRING_def Let_def
            int_to_big_endian_byte[OF pos, unfolded b0_def[symmetric]]
            ll_def len_prefix_def
            split: if_splits)
    have llb: "1 \<le> ll" "ll \<le> 8" using long by (simp_all add: ll_def)
    have sle: "s \<le> length rlp" using le by simp
    then have llen: "length len_prefix = ll" using r by (simp add: len_prefix_def length_slice)
    have s1: "Suc start < length rlp" using sle r llb by simp
    have "len_prefix = rlp ! Suc start # slice rlp (Suc (Suc start)) (Suc start + ll)"
      using s1 llb unfolding len_prefix_def by (intro slice_Cons) simp_all
    moreover have "rlp ! Suc start \<noteq> 0" using nz s1 by (simp add: slice_single)
    ultimately have hd: "len_prefix \<noteq> []" "hd len_prefix \<noteq> 0" by simp_all
    have "l < 256 ^ ll" using big_endian_to_int_less[of len_prefix] r llen by simp
    also have "\<dots> \<le> 256 ^ 8" using llb by (intro power_increasing) simp_all
    finally have l64: "l < 2 ^ 64" by simp
    have lpos: "0 < l" using l56 by simp
    have L: "int_to_big_endian l = len_prefix"
      using be_digits_big_endian_to_int[OF hd] r lpos by (simp add: int_to_big_endian_pos)
    have "128 + 55 + ll = b0" using long by (simp add: ll_def)
    then have "of_nat (128 + 55 + length (int_to_big_endian l)) = b"
      using L llen of_nat_unat_byte[OF b0_def] by simp
    with length_prefix_long[OF l56 l64, of 128] L
    have "length_prefix l 128 = Inr (b # len_prefix)" by simp
    from add_prefix_eq[OF len this]
    have enc: "add_prefix (slice rlp s (s + l)) 128 = Inr (p @ slice rlp s (s + l))"
      by (simp only: r(1))
    have ns: "length (slice rlp s (s + l)) \<noteq> 1" using len l56 by simp
    then have "encode_raw (PyBytes (slice rlp s (s + l))) =
        add_prefix (slice rlp s (s + l)) 128"
      by (simp only: encode_raw.simps simp_thms if_False)
    moreover have "slice rlp start (s + l) = slice rlp start s @ slice rlp s (s + l)"
      using r by (intro slice_split) simp_all
    moreover have "slice rlp start s = b # len_prefix"
      using st r by (simp add: slice_Cons b_def len_prefix_def)
    ultimately show ?thesis using enc by (simp only: r(1) simp_thms)
  next
    case list
    with lp gi show ?thesis
      by (auto simp: consume_length_prefix_def b0_def[symmetric] SHORT_STRING_def Let_def
            split: if_splits)
  qed
  then show "encode_raw (PyBytes (slice rlp s (s + l))) = Inr (p @ slice rlp s (s + l))"
    and "slice rlp start (s + l) = p @ slice rlp s (s + l)" by simp_all
qed

lemma long_form_prefix:
  assumes ll: "1 \<le> ll" "ll \<le> 8" and s: "Suc start + ll \<le> length rlp"
      and nz: "slice rlp (Suc start) (Suc (Suc start)) \<noteq> [0]"
      and l56: "56 \<le> big_endian_to_int (slice rlp (Suc start) (Suc start + ll))"
      and b: "offset + 55 + ll = unat (b :: byte)" and off: "offset \<le> 192"
  shows "length_prefix (big_endian_to_int (slice rlp (Suc start) (Suc start + ll))) offset =
           Inr (b # slice rlp (Suc start) (Suc start + ll))"
proof -
  define len_prefix where "len_prefix = slice rlp (Suc start) (Suc start + ll)"
  define l where "l = big_endian_to_int len_prefix"
  have llen: "length len_prefix = ll" using s by (simp add: len_prefix_def length_slice)
  have s1: "Suc start < length rlp" using s ll by simp
  have "len_prefix = rlp ! Suc start # slice rlp (Suc (Suc start)) (Suc start + ll)"
    using s1 ll unfolding len_prefix_def by (intro slice_Cons) simp_all
  moreover have "rlp ! Suc start \<noteq> 0" using nz s1 by (simp add: slice_single)
  ultimately have hd: "len_prefix \<noteq> []" "hd len_prefix \<noteq> 0" by simp_all
  have "l < 256 ^ ll" using big_endian_to_int_less[of len_prefix] llen by (simp add: l_def)
  also have "\<dots> \<le> 256 ^ 8" using ll by (intro power_increasing) simp_all
  finally have l64: "l < 2 ^ 64" by simp
  have l56': "56 \<le> l" using l56 by (simp add: l_def len_prefix_def)
  then have lpos: "0 < l" by simp
  have L: "int_to_big_endian l = len_prefix"
    using be_digits_big_endian_to_int[OF hd] lpos by (simp add: int_to_big_endian_pos l_def)
  have "of_nat (offset + 55 + length (int_to_big_endian l)) = b"
    using L llen of_nat_unat_byte[OF b] by simp
  with length_prefix_long[OF l56' l64 off] L
  have "length_prefix l offset = Inr (b # len_prefix)" by simp
  then show ?thesis by (simp only: l_def len_prefix_def)
qed

lemma consume_length_prefix_list_sound:
  assumes lp: "consume_length_prefix rlp start = Inr (p, list_type, l, s)"
      and le: "s \<le> length rlp"
  shows "length_prefix l 192 = Inr p" and "slice rlp start s = p"
proof -
  from consume_length_prefix_progress(1)[OF lp] have st: "start < length rlp" .
  define b where "b = rlp ! start"
  define b0 where "b0 = unat b"
  have gi: "getitem rlp start = Inr b" using st by (simp add: getitem_def b_def)
  have b256: "b0 < 256" using unat_byte_less[of b] by (simp add: b0_def)
  consider (bytes) "b0 < 192" | (short) "192 \<le> b0" "b0 < 248" | (long) "248 \<le> b0"
    by linarith
  then have "length_prefix l 192 = Inr p \<and> slice rlp start s = p"
  proof cases
    case bytes
    with lp gi show ?thesis
      by (auto simp: consume_length_prefix_def b0_def[symmetric] SHORT_STRING_def Let_def
            split: if_splits sum.splits)
  next
    case short
    have pos: "0 < unat b" using short by (simp add: b0_def)
    from lp gi short have r: "p = [b]" "l = b0 - 192" "s = Suc start"
      by (auto simp: consume_length_prefix_def b0_def[symmetric] SHORT_STRING_def
            int_to_big_endian_byte[OF pos, unfolded b0_def[symmetric]]
            split: if_splits)
    have "l < 56" using r short by simp
    moreover have "192 + l = b0" using r short by simp
    ultimately have "length_prefix l 192 = Inr [b]"
      using short by (simp add: length_prefix_short of_nat_unat_byte[OF b0_def])
    moreover have "slice rlp start s = [b]" using st r by (simp add: slice_single b_def)
    ultimately show ?thesis using r by simp
  next
    case long
    define ll where "ll = b0 - 247"
    have eq: "Suc (Suc (start + b0 - 248)) = Suc (start + ll)"
      using long by (simp add: ll_def)
    have pos: "0 < unat b" using long by (simp add: b0_def)
    from lp gi long have nz: "slice rlp (Suc start) (Suc (Suc start)) \<noteq> [0]"
      and r: "p = b # slice rlp (Suc start) (Suc start + ll)"
        "l = big_endian_to_int (slice rlp (Suc start) (Suc start + ll))" "s = Suc start + ll"
      and l56: "56 \<le> l"
      by (auto simp: consume_length_prefix_def b0_def[symmetric] SHORT_STRING_def Let_def
            int_to_big_endian_byte[OF pos, unfolded b0_def[symmetric]] eq
            split: if_splits)
    have llb: "1 \<le> ll" "ll \<le> 8" using long b256 by (simp_all add: ll_def)
    have "192 + 55 + ll = unat b" using long by (simp add: ll_def b0_def)
    from long_form_prefix[OF llb _ nz _ this] le l56 r
    have "length_prefix l 192 = Inr p" by simp
    moreover have "slice rlp start s = p"
      using st r by (simp add: slice_Cons b_def)
    ultimately show ?thesis by simp
  qed
  then show "length_prefix l 192 = Inr p" and "slice rlp start s = p" by simp_all
qed

section \<open>Every item that is read is the encoding of its tree\<close>

lemma join_Cons_Inr:
  "r = Inr b \<Longrightarrow> join rs = Inr bs \<Longrightarrow> join (r # rs) = Inr (b @ bs)"
  by simp

lemma item_read_sound:
  assumes lp: "consume_length_prefix rlp start = Inr (p, t, l, s)"
      and e: "e = s + l" "e \<le> length rlp"
      and rlp: "item_rlp item = p @ slice rlp s e"
      and bytes: "t = bytes_type \<Longrightarrow> fst (split_rlp_from_item item) = PyBytes (slice rlp s e)"
      and list: "t = list_type \<Longrightarrow>
                   \<exists>ts. fst (split_rlp_from_item item) = PyList ts \<and>
                        join (map encode_raw ts) = Inr (slice rlp s e)"
  shows "encode_raw (fst (split_rlp_from_item item)) = Inr (slice rlp start e)"
    and "item_rlp item = slice rlp start e"
proof -
  have "encode_raw (fst (split_rlp_from_item item)) = Inr (slice rlp start e) \<and>
        item_rlp item = slice rlp start e"
  proof (cases t)
    case bytes_type
    from lp bytes_type have lp': "consume_length_prefix rlp start = Inr (p, bytes_type, l, s)"
      by simp
    from e have le: "s + l \<le> length rlp" by simp
    from consume_length_prefix_bytes_sound[OF lp' le] bytes[OF bytes_type] rlp e(1)
    show ?thesis by simp
  next
    case list_type
    from lp list_type have lp': "consume_length_prefix rlp start = Inr (p, list_type, l, s)"
      by simp
    from e have le: "s \<le> length rlp" by simp
    note snd = consume_length_prefix_list_sound[OF lp' le]
    from list[OF list_type] obtain ts where
      ts: "fst (split_rlp_from_item item) = PyList ts"
        "join (map encode_raw ts) = Inr (slice rlp s e)" by blast
    have len: "length (slice rlp s e) = l" using e by (simp add: length_slice)
    have "add_prefix (slice rlp s e) 192 = Inr (p @ slice rlp s e)"
      using add_prefix_eq[OF len snd(1)] .
    then have enc: "encode_raw (PyList ts) = Inr (p @ slice rlp s e)"
      using ts(2) by simp
    have "slice rlp start e = slice rlp start s @ slice rlp s e"
      using consume_length_prefix_progress(2)[OF lp] e(1) by (intro slice_split) simp_all
    with snd(2) have "slice rlp start e = p @ slice rlp s e" by simp
    with enc ts(1) rlp show ?thesis by simp
  qed
  then show "encode_raw (fst (split_rlp_from_item item)) = Inr (slice rlp start e)"
    and "item_rlp item = slice rlp start e" by simp_all
qed

lemma consume_sound:
  "consume_payload rlp prefix start t len = Inr (item, e) \<Longrightarrow> e \<le> length rlp \<Longrightarrow>
     e = start + len \<and> item_rlp item = prefix @ slice rlp start e \<and>
     (t = bytes_type \<longrightarrow> fst (split_rlp_from_item item) = PyBytes (slice rlp start e)) \<and>
     (t = list_type \<longrightarrow>
        (\<exists>ts. fst (split_rlp_from_item item) = PyList ts \<and>
              join (map encode_raw ts) = Inr (slice rlp start e)))"
  "consume_children rlp end items list_rlp next_item_start = Inr (items', list_rlp', e') \<Longrightarrow>
     e' \<le> length rlp \<Longrightarrow>
     next_item_start \<le> e' \<and> list_rlp' = list_rlp @ slice rlp next_item_start e' \<and>
     (\<exists>new. items' = items @ new \<and>
        join (map encode_raw (map (\<lambda>sub. fst (split_rlp_from_item sub)) new)) =
          Inr (slice rlp next_item_start e'))"
proof (induction rlp prefix start t len and rlp "end" items list_rlp next_item_start
       arbitrary: item e and items' list_rlp' e'
       rule: consume_payload_consume_children.induct)
  case (1 rlp prefix start len)
  then show ?case by (auto simp: Let_def)
next
  case (2 rlp prefix start len)
  from 2(2) obtain items list_rlp where
    cc: "consume_children rlp (start + len) [] prefix start = Inr (items, list_rlp, e)"
    and le: "e \<le> start + len" and item: "item = ListItem items list_rlp"
    by (auto simp: Let_def split: sum.splits if_splits)
  from consume_children_exit[OF cc] le have e: "e = start + len" by simp
  from 2(1)[OF refl cc 2(3)] obtain new where
    lr: "list_rlp = prefix @ slice rlp start e" and new: "items = [] @ new"
    and j: "join (map encode_raw (map (\<lambda>sub. fst (split_rlp_from_item sub)) new)) =
          Inr (slice rlp start e)"
    by blast
  from new j have "join (map encode_raw (map (\<lambda>sub. fst (split_rlp_from_item sub)) items)) =
          Inr (slice rlp start e)" by simp
  with e lr item show ?case by simp
next
  case (3 rlp "end" items list_rlp next_item_start)
  show ?case
  proof (cases "next_item_start < end")
    case False
    with 3(3) show ?thesis by (simp add: consume_children.simps slice_empty)
  next
    case True
    from 3(3) True obtain p t l s item nxt where
      lp: "consume_length_prefix rlp next_item_start = Inr (p, t, l, s)" and
      cp: "consume_payload rlp p s t l = Inr (item, nxt)" and
      cc: "consume_children rlp end (items @ [item]) (list_rlp @ item_rlp item) nxt
             = Inr (items', list_rlp', e')"
      by (auto simp: consume_children.simps[of rlp "end" items list_rlp next_item_start]
               split: sum.splits)
    from 3(2)[OF True lp refl refl refl cp refl cc 3(4)] obtain new where
      le: "nxt \<le> e'" and lr: "list_rlp' = (list_rlp @ item_rlp item) @ slice rlp nxt e'"
      and new: "items' = (items @ [item]) @ new"
      and j: "join (map encode_raw (map (\<lambda>sub. fst (split_rlp_from_item sub)) new)) =
          Inr (slice rlp nxt e')"
      by blast
    from le 3(4) have nle: "nxt \<le> length rlp" by simp
    note ih = 3(1)[OF True lp refl refl refl cp nle]
    from ih have nxt: "nxt = s + l" and ir: "item_rlp item = p @ slice rlp s nxt" by simp_all
    have b: "t = bytes_type \<Longrightarrow> fst (split_rlp_from_item item) = PyBytes (slice rlp s nxt)"
      using ih by blast
    have l: "t = list_type \<Longrightarrow> \<exists>ts. fst (split_rlp_from_item item) = PyList ts \<and>
                        join (map encode_raw ts) = Inr (slice rlp s nxt)"
      using ih by blast
    note snd = item_read_sound[OF lp nxt nle ir b l]
    have n: "next_item_start \<le> nxt"
      using consume_length_prefix_progress(2)[OF lp] nxt by simp
    have sp: "slice rlp next_item_start e' = slice rlp next_item_start nxt @ slice rlp nxt e'"
      using n le by (rule slice_split)
    have "join (map encode_raw (map (\<lambda>sub. fst (split_rlp_from_item sub)) (item # new))) =
            Inr (slice rlp next_item_start e')"
      using join_Cons_Inr[OF snd(1) j] sp by simp
    moreover have "items' = items @ (item # new)" using new by simp
    moreover have "list_rlp' = list_rlp @ slice rlp next_item_start e'"
      using lr snd(2) sp by simp
    moreover have "next_item_start \<le> e'" using n le by simp
    ultimately show ?thesis by blast
  qed
qed

lemma consume_item_sound:
  assumes "consume_item rlp start = Inr (item, e)" and "e \<le> length rlp"
  shows "encode_raw (fst (split_rlp_from_item item)) = Inr (slice rlp start e)"
    and "item_rlp item = slice rlp start e"
proof -
  from assms(1) obtain p t l s where
    lp: "consume_length_prefix rlp start = Inr (p, t, l, s)" and
    cp: "consume_payload rlp p s t l = Inr (item, e)"
    by (auto simp: consume_item_def split: sum.splits)
  note ih = consume_sound(1)[OF cp assms(2)]
  from ih have e: "e = s + l" and ir: "item_rlp item = p @ slice rlp s e" by simp_all
  have b: "t = bytes_type \<Longrightarrow> fst (split_rlp_from_item item) = PyBytes (slice rlp s e)"
    using ih by blast
  have l: "t = list_type \<Longrightarrow> \<exists>ts. fst (split_rlp_from_item item) = PyList ts \<and>
                        join (map encode_raw ts) = Inr (slice rlp s e)"
    using ih by blast
  from item_read_sound[OF lp e assms(2) ir b l]
  show "encode_raw (fst (split_rlp_from_item item)) = Inr (slice rlp start e)"
    and "item_rlp item = slice rlp start e" by simp_all
qed

text \<open>
  C2: when \<^verbatim>\<open>consume_item\<close> reads a byte sequence from offset 0 and ends exactly at its
  length, which is what strict decoding accepts, encoding the bare tree of the result
  with \<^verbatim>\<open>encode_raw\<close> gives the byte sequence back. The slice kept with the root is that
  sequence too, and \<^verbatim>\<open>decode\<close> in strict mode returns the bare tree.
\<close>

theorem encode_raw_inverts_strict_decoding:
  "consume_item b 0 = Inr (item, length b) \<Longrightarrow>
     encode_raw (fst (split_rlp_from_item item)) = Inr b \<and>
     item_rlp item = b \<and>
     decode (PyBytes b) True = Inr (fst (split_rlp_from_item item))"
proof -
  assume a: "consume_item b 0 = Inr (item, length b)"
  from consume_item_sound[OF a] have
    "encode_raw (fst (split_rlp_from_item item)) = Inr b" "item_rlp item = b"
    by (simp_all add: slice_all)
  moreover from a have "decode (PyBytes b) True = Inr (fst (split_rlp_from_item item))"
    by (simp add: decode_def)
  ultimately show ?thesis by simp
qed

lemma cat_dog_item:
  "consume_item [0xC8, 0x83, 0x63, 0x61, 0x74, 0x83, 0x64, 0x6F, 0x67] 0 =
     Inr (ListItem [BytesItem [0x63, 0x61, 0x74] [0x83, 0x63, 0x61, 0x74],
                    BytesItem [0x64, 0x6F, 0x67] [0x83, 0x64, 0x6F, 0x67]]
            [0xC8, 0x83, 0x63, 0x61, 0x74, 0x83, 0x64, 0x6F, 0x67],
          length [0xC8, 0x83, 0x63, 0x61, 0x74, 0x83, 0x64, 0x6F, 0x67 :: byte])"
  by code_simp

theorem encode_raw_inverts_strict_decoding_witness:
  "encode_raw (PyList [PyBytes [0x63, 0x61, 0x74], PyBytes [0x64, 0x6F, 0x67]]) =
     Inr [0xC8, 0x83, 0x63, 0x61, 0x74, 0x83, 0x64, 0x6F, 0x67] \<and>
   decode (PyBytes [0xC8, 0x83, 0x63, 0x61, 0x74, 0x83, 0x64, 0x6F, 0x67]) True =
     Inr (PyList [PyBytes [0x63, 0x61, 0x74], PyBytes [0x64, 0x6F, 0x67]])"
  using encode_raw_inverts_strict_decoding [OF cat_dog_item]
  by (simp del: encode_raw.simps)

section \<open>A prefix that is written is the prefix that is read\<close>

lemma consume_length_prefix_single:
  "getitem rlp start = Inr b \<Longrightarrow> unat b < 128 \<Longrightarrow>
     consume_length_prefix rlp start = Inr ([], bytes_type, 1, start)"
  by (simp add: consume_length_prefix_def)

lemma consume_length_prefix_short_string:
  assumes "getitem rlp start = Inr b" "128 \<le> unat b" "unat b < 184"
      and "unat b = 129 \<Longrightarrow> \<exists>b1. getitem rlp (Suc start) = Inr b1 \<and> 128 \<le> unat b1"
  shows "consume_length_prefix rlp start = Inr ([b], bytes_type, unat b - 128, Suc start)"
proof -
  have pos: "0 < unat b" using assms(2) by simp
  show ?thesis
  proof (cases "unat b = 129")
    case True
    from assms(4)[OF True] obtain b1 where "getitem rlp (Suc start) = Inr b1" "128 \<le> unat b1"
      by blast
    moreover have "int_to_big_endian 129 = [b]"
      using int_to_big_endian_byte[OF pos] True by simp
    ultimately show ?thesis using assms(1) True
      by (simp add: consume_length_prefix_def SHORT_STRING_def)
  next
    case False
    with assms(1,2,3) show ?thesis
      by (auto simp: consume_length_prefix_def SHORT_STRING_def Let_def
            int_to_big_endian_byte[OF pos])
  qed
qed

lemma consume_length_prefix_long_string:
  assumes "getitem rlp start = Inr b" "184 \<le> unat b" "unat b < 192"
      and "ll = unat b - 183"
      and "slice rlp (Suc start) (Suc (Suc start)) \<noteq> [0]"
      and "56 \<le> big_endian_to_int (slice rlp (Suc start) (Suc start + ll))"
  shows "consume_length_prefix rlp start =
           Inr (b # slice rlp (Suc start) (Suc start + ll), bytes_type,
                big_endian_to_int (slice rlp (Suc start) (Suc start + ll)), Suc start + ll)"
proof -
  have pos: "0 < unat b" using assms(2) by simp
  from assms show ?thesis
    by (simp add: consume_length_prefix_def SHORT_STRING_def Let_def
          int_to_big_endian_byte[OF pos])
qed

lemma consume_length_prefix_short_list:
  assumes "getitem rlp start = Inr b" "192 \<le> unat b" "unat b < 248"
  shows "consume_length_prefix rlp start = Inr ([b], list_type, unat b - 192, Suc start)"
proof -
  have pos: "0 < unat b" using assms(2) by simp
  from assms show ?thesis
    by (simp add: consume_length_prefix_def SHORT_STRING_def int_to_big_endian_byte[OF pos])
qed

lemma consume_length_prefix_long_list:
  assumes "getitem rlp start = Inr b" "248 \<le> unat b"
      and "ll = unat b - 247"
      and "slice rlp (Suc start) (Suc (Suc start)) \<noteq> [0]"
      and "56 \<le> big_endian_to_int (slice rlp (Suc start) (Suc start + ll))"
  shows "consume_length_prefix rlp start =
           Inr (b # slice rlp (Suc start) (Suc start + ll), list_type,
                big_endian_to_int (slice rlp (Suc start) (Suc start + ll)), Suc start + ll)"
proof -
  have pos: "0 < unat b" using assms(2) by simp
  have eq: "Suc (Suc (start + unat b - 248)) = Suc (start + ll)"
    using assms(2,3) by simp
  from assms(1,2,4,5) show ?thesis
    by (simp add: consume_length_prefix_def SHORT_STRING_def Let_def
          int_to_big_endian_byte[OF pos] eq)
qed

lemma slice_prefix_parts:
  assumes "slice rlp i (i + length (xs @ ys)) = xs @ ys" "i + length (xs @ ys) \<le> length rlp"
  shows "slice rlp i (i + length xs) = xs"
    and "slice rlp (i + length xs) (i + length xs + length ys) = ys"
proof -
  have "slice rlp i (i + length (xs @ ys)) =
          slice rlp i (i + length xs) @ slice rlp (i + length xs) (i + length (xs @ ys))"
    by (intro slice_split) simp_all
  moreover have "length (slice rlp i (i + length xs)) = length xs"
    using assms(2) by (simp add: length_slice)
  ultimately have "slice rlp i (i + length xs) = xs \<and>
      slice rlp (i + length xs) (i + length (xs @ ys)) = ys"
    using assms(1) by (simp add: append_eq_append_conv)
  then show "slice rlp i (i + length xs) = xs"
    and "slice rlp (i + length xs) (i + length xs + length ys) = ys"
    by (simp_all add: add.assoc)
qed

lemma slice_head:
  assumes "slice rlp i (i + length (x # xs)) = x # xs" "i + length (x # xs) \<le> length rlp"
  shows "getitem rlp i = Inr x" and "slice rlp (Suc i) (Suc i + length xs) = xs"
proof -
  have i: "i < length rlp" using assms(2) by simp
  then have "slice rlp i (i + length (x # xs)) = rlp ! i # slice rlp (Suc i) (i + length (x # xs))"
    by (intro slice_Cons) simp_all
  with assms(1) have "rlp ! i = x" "slice rlp (Suc i) (i + length (x # xs)) = xs" by simp_all
  with i show "getitem rlp i = Inr x" and "slice rlp (Suc i) (Suc i + length xs) = xs"
    by (simp_all add: getitem_def)
qed

lemma length_prefix_cases:
  assumes "length_prefix n offset = Inr pfx" "offset = 128 \<or> offset = 192"
  obtains (short) "n < 56" "pfx = [of_nat (offset + n)]"
  | (long) "56 \<le> n" "n < 2 ^ 64"
      "pfx = of_nat (offset + 55 + length (be_digits n)) # be_digits n"
      "1 \<le> length (be_digits n)" "length (be_digits n) \<le> 8"
      "hd (be_digits n) \<noteq> 0" "big_endian_to_int (be_digits n) = n"
proof (cases "n < 56")
  case True
  with assms have "pfx = [of_nat (offset + n)]"
    using length_prefix_short[of n offset] by auto
  with True show ?thesis by (rule short)
next
  case False
  then have n56: "56 \<le> n" by simp
  then have pos: "0 < n" by simp
  have n64: "n < 2 ^ 64"
    using assms(1) length_prefix_too_long[of n offset] by (cases "n < 2 ^ 64") simp_all
  from assms(2) have off: "offset \<le> 192" by auto
  from length_prefix_long[OF n56 n64 off] assms(1)
  have "pfx = of_nat (offset + 55 + length (be_digits n)) # be_digits n"
    by (simp add: int_to_big_endian_pos[OF pos])
  moreover have "1 \<le> length (be_digits n)" "length (be_digits n) \<le> 8"
    using length_int_to_big_endian[OF pos n64]
    by (simp_all add: int_to_big_endian_pos[OF pos] Suc_le_eq)
  moreover note hd_be_digits[OF pos] big_endian_to_int_be_digits[of n]
  ultimately show ?thesis using n56 n64 by (intro long)
qed

lemma length_prefix_nonempty: "length_prefix n offset = Inr pfx \<Longrightarrow> pfx \<noteq> []"
  by (auto simp: length_prefix_def ALL_BYTES_def Let_def split: if_splits)

lemma consume_length_prefix_complete:
  assumes lp: "length_prefix n offset = Inr pfx" and off: "offset = 128 \<or> offset = 192"
      and sl: "slice rlp start (start + length pfx) = pfx"
      and le: "start + length pfx \<le> length rlp"
      and single: "offset = 128 \<Longrightarrow> n = 1 \<Longrightarrow>
                     \<exists>b1. getitem rlp (Suc start) = Inr b1 \<and> 128 \<le> unat b1"
  shows "consume_length_prefix rlp start =
           Inr (pfx, if offset = 128 then bytes_type else list_type, n, start + length pfx)"
  using lp off
proof (cases rule: length_prefix_cases)
  case short
  define b :: byte where "b = of_nat (offset + n)"
  have "offset + n < 256" using short(1) off by auto
  then have ub: "unat b = offset + n" unfolding b_def by (rule unat_of_nat_byte)
  have pfx: "pfx = [b]" using short by (simp add: b_def)
  from slice_head(1)[of rlp start b "[]"] sl le pfx have gi: "getitem rlp start = Inr b"
    by simp
  from off show ?thesis
  proof
    assume o: "offset = 128"
    have "unat b = 129 \<Longrightarrow> \<exists>b1. getitem rlp (Suc start) = Inr b1 \<and> 128 \<le> unat b1"
      using single[OF o] ub o by simp
    from consume_length_prefix_short_string[OF gi _ _ this] ub o short(1) pfx
    show ?thesis by simp
  next
    assume o: "offset = 192"
    from consume_length_prefix_short_list[OF gi] ub o short(1) pfx
    show ?thesis by simp
  qed
next
  case long
  define L where "L = be_digits n"
  define b :: byte where "b = of_nat (offset + 55 + length L)"
  have "offset + 55 + length L < 256" using long(5) off by (auto simp: L_def)
  then have ub: "unat b = offset + 55 + length L" unfolding b_def by (rule unat_of_nat_byte)
  have pfx: "pfx = b # L" using long(3) by (simp add: b_def L_def)
  from slice_head[of rlp start b L] sl le pfx
  have gi: "getitem rlp start = Inr b" and sL: "slice rlp (Suc start) (Suc start + length L) = L"
    by simp_all
  have Lne: "L \<noteq> []" using long(4) by (auto simp: L_def)
  have s1: "Suc start < length rlp" using le pfx Lne by (cases L) simp_all
  have "slice rlp (Suc start) (Suc start + length L) =
          rlp ! Suc start # slice rlp (Suc (Suc start)) (Suc start + length L)"
    using s1 Lne by (intro slice_Cons) simp_all
  with sL have "rlp ! Suc start = hd L" by (cases L) simp_all
  with long(6) s1 have nz: "slice rlp (Suc start) (Suc (Suc start)) \<noteq> [0]"
    by (simp add: slice_single L_def)
  have l56: "56 \<le> big_endian_to_int (slice rlp (Suc start) (Suc start + length L))"
    using sL long(1,7) by (simp add: L_def)
  from off show ?thesis
  proof
    assume o: "offset = 128"
    have ll: "length L = unat b - 183" using ub o by simp
    have "184 \<le> unat b" "unat b < 192" using ub o long(4,5) by (simp_all add: L_def)
    from consume_length_prefix_long_string[OF gi this ll nz l56] sL long(7) pfx o
    show ?thesis by (simp add: L_def)
  next
    assume o: "offset = 192"
    have ll: "length L = unat b - 247" using ub o by simp
    have "248 \<le> unat b" using ub o long(4) by (simp add: L_def)
    from consume_length_prefix_long_list[OF gi this ll nz l56] sL long(7) pfx o
    show ?thesis by (simp add: L_def)
  qed
qed

section \<open>Decoding an encoding\<close>

lemma add_prefix_Inr:
  assumes "add_prefix payload offset = Inr bs"
  obtains pfx where "length_prefix (length payload) offset = Inr pfx" "bs = pfx @ payload"
  using assms by (auto simp: add_prefix_def split: sum.splits exn.splits)

lemma encode_raw_nonempty: "encode_raw t = Inr bs \<Longrightarrow> bs \<noteq> []"
proof (cases t)
  case (PyBytes item)
  assume "encode_raw t = Inr bs"
  with PyBytes show ?thesis
    by (auto simp: split: if_splits elim!: add_prefix_Inr dest: length_prefix_nonempty)
next
  case (PyList items)
  assume "encode_raw t = Inr bs"
  with PyList show ?thesis
    by (auto split: sum.splits elim!: add_prefix_Inr dest: length_prefix_nonempty)
next
  case (PyInstance c items cached)
  assume "encode_raw t = Inr bs"
  with PyInstance show ?thesis
    by (auto split: sum.splits if_splits elim!: add_prefix_Inr dest: length_prefix_nonempty)
qed simp_all

lemma roundtrip_bytes:
  assumes enc: "encode_raw (PyBytes item) = Inr bs"
      and sl: "slice rlp start (start + length bs) = bs"
      and le: "start + length bs \<le> length rlp"
  shows "consume_item rlp start = Inr (BytesItem item bs, start + length bs)"
proof (cases "length item = 1 \<and> unat (item ! 0) < 128")
  case True
  then obtain b where item: "item = [b]" and b: "unat b < 128"
    by (cases item) auto
  with enc have bs: "bs = [b]" by simp
  from slice_head(1)[of rlp start b "[]"] sl le bs have gi: "getitem rlp start = Inr b" by simp
  have "slice rlp start (start + 1) = [b]" using sl bs by simp
  with consume_length_prefix_single[OF gi b] item bs show ?thesis
    by (simp add: consume_item_def Let_def)
next
  case False
  with enc have "add_prefix item 128 = Inr bs" by (simp split: if_splits)
  then obtain pfx where lp: "length_prefix (length item) 128 = Inr pfx"
    and bs: "bs = pfx @ item"
    by (rule add_prefix_Inr)
  from slice_prefix_parts[of rlp start pfx item] sl le bs
  have sp: "slice rlp start (start + length pfx) = pfx"
    and si: "slice rlp (start + length pfx) (start + length pfx + length item) = item"
    by simp_all
  have lep: "start + length pfx \<le> length rlp" using le bs by simp
  have single: "\<exists>b1. getitem rlp (Suc start) = Inr b1 \<and> 128 \<le> unat b1"
    if one: "length item = 1"
  proof -
    from one obtain c where item: "item = [c]" by (cases item) auto
    with False have c: "128 \<le> unat c" by simp
    from lp one have "pfx = [of_nat (128 + 1)]"
      using length_prefix_short[of 1 128] by simp
    then have "length pfx = 1" by simp
    with si item le bs have "slice rlp (Suc start) (Suc start + length [c]) = [c]"
      "Suc start + length [c] \<le> length rlp" by simp_all
    from slice_head(1)[of rlp "Suc start" c "[]"] this have "getitem rlp (Suc start) = Inr c"
      by simp
    with c show ?thesis by blast
  qed
  from consume_length_prefix_complete[OF lp _ sp lep] single
  have "consume_length_prefix rlp start =
          Inr (pfx, bytes_type, length item, start + length pfx)"
    by simp
  with si bs show ?thesis by (simp add: consume_item_def Let_def add.assoc)
qed

lemma roundtrip_children:
  assumes ih: "\<And>x bs start. x \<in> set xs \<Longrightarrow> is_tree x \<Longrightarrow> encode_raw x = Inr bs \<Longrightarrow>
            slice rlp start (start + length bs) = bs \<Longrightarrow> start + length bs \<le> length rlp \<Longrightarrow>
            \<exists>d. consume_item rlp start = Inr (d, start + length bs) \<and>
                fst (split_rlp_from_item d) = x \<and> item_rlp d = bs"
  shows "list_all is_tree xs \<Longrightarrow> join (map encode_raw xs) = Inr payload \<Longrightarrow>
         slice rlp next_item_start (next_item_start + length payload) = payload \<Longrightarrow>
         next_item_start + length payload \<le> length rlp \<Longrightarrow>
         \<exists>ds. consume_children rlp (next_item_start + length payload) items list_rlp
                 next_item_start =
                 Inr (items @ ds, list_rlp @ payload, next_item_start + length payload) \<and>
              map (\<lambda>sub. fst (split_rlp_from_item sub)) ds = xs"
  using ih
proof (induction xs arbitrary: payload next_item_start items list_rlp)
  case Nil
  then show ?case by (simp add: consume_children.simps)
next
  case (Cons x xs)
  from Cons.prems(2) obtain bx rest where
    bx: "encode_raw x = Inr bx" and rest: "join (map encode_raw xs) = Inr rest"
    and payload: "payload = bx @ rest"
    by (auto split: sum.splits)
  from Cons.prems(1) have tx: "is_tree x" and txs: "list_all is_tree xs" by simp_all
  from slice_prefix_parts[of rlp next_item_start bx rest] Cons.prems(3,4) payload
  have sx: "slice rlp next_item_start (next_item_start + length bx) = bx"
    and sr: "slice rlp (next_item_start + length bx)
               (next_item_start + length bx + length rest) = rest"
    by simp_all
  have lex: "next_item_start + length bx \<le> length rlp" using Cons.prems(4) payload by simp
  from Cons.prems(5)[OF _ tx bx sx lex] obtain d where
    d: "consume_item rlp next_item_start = Inr (d, next_item_start + length bx)"
      "fst (split_rlp_from_item d) = x" "item_rlp d = bx"
    by auto
  have "bx \<noteq> []" using encode_raw_nonempty[OF bx] .
  then have lt: "next_item_start < next_item_start + length payload" using payload by simp
  have ler: "next_item_start + length bx + length rest \<le> length rlp"
    using Cons.prems(4) payload by simp
  have ih': "\<And>y bs start. y \<in> set xs \<Longrightarrow> is_tree y \<Longrightarrow> encode_raw y = Inr bs \<Longrightarrow>
            slice rlp start (start + length bs) = bs \<Longrightarrow> start + length bs \<le> length rlp \<Longrightarrow>
            \<exists>d. consume_item rlp start = Inr (d, start + length bs) \<and>
                fst (split_rlp_from_item d) = y \<and> item_rlp d = bs"
    using Cons.prems(5) by simp
  from Cons.IH[OF txs rest sr ler ih', of "items @ [d]" "list_rlp @ item_rlp d"]
  obtain ds where
    ds: "consume_children rlp (next_item_start + length bx + length rest) (items @ [d])
           (list_rlp @ item_rlp d) (next_item_start + length bx) =
         Inr ((items @ [d]) @ ds, (list_rlp @ item_rlp d) @ rest,
              next_item_start + length bx + length rest)"
      "map (\<lambda>sub. fst (split_rlp_from_item sub)) ds = xs"
    by blast
  have e: "next_item_start + length payload = next_item_start + length bx + length rest"
    using payload by simp
  have a: "consume_children rlp (next_item_start + length payload) items list_rlp
             next_item_start =
          Inr (items @ (d # ds), list_rlp @ payload, next_item_start + length payload)"
    using consume_children_step[OF lt d(1), of items list_rlp] ds(1) d(3) payload
    by (simp add: add.assoc)
  have b: "map (\<lambda>sub. fst (split_rlp_from_item sub)) (d # ds) = x # xs"
    using d(2) ds(2) by simp
  from a b show ?case by (intro exI[of _ "d # ds"] conjI)
qed

lemma roundtrip_list:
  assumes ih: "\<And>x bs start. x \<in> set xs \<Longrightarrow> is_tree x \<Longrightarrow> encode_raw x = Inr bs \<Longrightarrow>
            slice rlp start (start + length bs) = bs \<Longrightarrow> start + length bs \<le> length rlp \<Longrightarrow>
            \<exists>d. consume_item rlp start = Inr (d, start + length bs) \<and>
                fst (split_rlp_from_item d) = x \<and> item_rlp d = bs"
      and tree: "list_all is_tree xs"
      and enc: "encode_raw (PyList xs) = Inr bs"
      and sl: "slice rlp start (start + length bs) = bs"
      and le: "start + length bs \<le> length rlp"
  shows "\<exists>d. consume_item rlp start = Inr (d, start + length bs) \<and>
             fst (split_rlp_from_item d) = PyList xs \<and> item_rlp d = bs"
proof -
  from enc obtain payload where j: "join (map encode_raw xs) = Inr payload"
    and ap: "add_prefix payload 192 = Inr bs"
    by (auto split: sum.splits)
  from ap obtain pfx where lp: "length_prefix (length payload) 192 = Inr pfx"
    and bs: "bs = pfx @ payload"
    by (rule add_prefix_Inr)
  from slice_prefix_parts[of rlp start pfx payload] sl le bs
  have sp: "slice rlp start (start + length pfx) = pfx"
    and si: "slice rlp (start + length pfx) (start + length pfx + length payload) = payload"
    by simp_all
  have lep: "start + length pfx \<le> length rlp" using le bs by simp
  have lei: "start + length pfx + length payload \<le> length rlp" using le bs by simp
  from consume_length_prefix_complete[OF lp _ sp lep]
  have clp: "consume_length_prefix rlp start =
          Inr (pfx, list_type, length payload, start + length pfx)"
    by simp
  from roundtrip_children[OF ih tree j si lei, of "[]" pfx] obtain ds where
    ds: "consume_children rlp (start + length pfx + length payload) [] pfx
           (start + length pfx) =
         Inr ([] @ ds, pfx @ payload, start + length pfx + length payload)"
      "map (\<lambda>sub. fst (split_rlp_from_item sub)) ds = xs"
    by blast
  have "consume_item rlp start = Inr (ListItem ds bs, start + length bs)"
    using clp ds(1) bs by (simp add: consume_item_def Let_def add.assoc)
  moreover have "fst (split_rlp_from_item (ListItem ds bs)) = PyList xs"
    using ds(2) by simp
  ultimately show ?thesis by simp
qed

lemma roundtrip_at:
  "is_tree t \<Longrightarrow> encode_raw t = Inr bs \<Longrightarrow>
     slice rlp start (start + length bs) = bs \<Longrightarrow> start + length bs \<le> length rlp \<Longrightarrow>
     \<exists>d. consume_item rlp start = Inr (d, start + length bs) \<and>
         fst (split_rlp_from_item d) = t \<and> item_rlp d = bs"
proof (induction t arbitrary: bs start)
  case (PyBytes item)
  from roundtrip_bytes[OF PyBytes(2,3,4)] show ?case by simp
next
  case (PyList xs)
  from PyList(2) have tree: "list_all is_tree xs" by simp
  show ?case
    by (rule roundtrip_list[OF PyList(1) tree PyList(3,4,5)])
qed simp_all

lemma length_prefix_total:
  assumes "n < 2 ^ 64" "offset = 128 \<or> offset = 192"
  shows "\<exists>pfx. length_prefix n offset = Inr pfx"
proof (cases "n < 56")
  case True
  with assms(2) have "offset + n < 256" by auto
  from length_prefix_short[OF True this] show ?thesis by blast
next
  case False
  then have "56 \<le> n" by simp
  moreover from assms(2) have "offset \<le> 192" by auto
  ultimately show ?thesis using length_prefix_long[of n offset] assms(1) by blast
qed

lemma add_prefix_total:
  assumes "length payload < 2 ^ 64" "offset = 128 \<or> offset = 192"
  shows "\<exists>bs. add_prefix payload offset = Inr bs"
proof -
  from length_prefix_total[OF assms] obtain pfx where
    "length_prefix (length payload) offset = Inr pfx" by blast
  from add_prefix_eq[OF refl this] show ?thesis by blast
qed

lemma encode_raw_total:
  assumes "is_tree t" "payloads_fit t"
  shows "\<exists>bs. encode_raw t = Inr bs"
proof (cases t)
  case (PyBytes item)
  with assms(2) have "length item < 2 ^ 64" by simp
  from add_prefix_total[OF this, of 128] PyBytes show ?thesis by auto
next
  case (PyList items)
  with assms(2) obtain payload where j: "join (map encode_raw items) = Inr payload"
    and "length payload < 2 ^ 64"
    by (auto split: sum.splits)
  from add_prefix_total[OF this(2), of 192] j PyList show ?thesis by auto
qed (use assms in simp_all)

text \<open>
  C1: for every Tree, made of byte strings and nested lists, whose payloads are all
  shorter than 2^64 bytes, \<^verbatim>\<open>encode_raw\<close> returns an encoding, and \<^verbatim>\<open>consume_item\<close> at
  offset 0 of that encoding returns a decorated tree whose bare tree is the Tree, with
  the end offset equal to the length of the encoding; the slice kept with the root is
  the encoding itself, and \<^verbatim>\<open>decode\<close> returns the Tree in strict and in non-strict mode.
\<close>

theorem consume_item_inverts_encode_raw:
  "is_tree t \<Longrightarrow> payloads_fit t \<Longrightarrow>
     \<exists>bs d. encode_raw t = Inr bs \<and>
        consume_item bs 0 = Inr (d, length bs) \<and>
        fst (split_rlp_from_item d) = t \<and>
        item_rlp d = bs \<and>
        decode (PyBytes bs) True = Inr t \<and>
        decode (PyBytes bs) False = Inr t"
proof -
  assume tree: "is_tree t" and fit: "payloads_fit t"
  from encode_raw_total[OF tree fit] obtain bs where enc: "encode_raw t = Inr bs" by blast
  have "slice bs 0 (0 + length bs) = bs" "0 + length bs \<le> length bs"
    by (simp_all add: slice_all)
  from roundtrip_at[OF tree enc this] obtain d where
    d: "consume_item bs 0 = Inr (d, length bs)" "fst (split_rlp_from_item d) = t"
      "item_rlp d = bs"
    by auto
  from d(1,2) have "decode (PyBytes bs) True = Inr t" "decode (PyBytes bs) False = Inr t"
    by (simp_all add: decode_def)
  with enc d show ?thesis by (intro exI[of _ bs] exI[of _ d] conjI)
qed

lemma cat_dog_leaves:
  "encode_raw (PyBytes [0x63, 0x61, 0x74]) = Inr [0x83, 0x63, 0x61, 0x74]"
  "encode_raw (PyBytes [0x64, 0x6F, 0x67]) = Inr [0x83, 0x64, 0x6F, 0x67]"
  by code_simp+

lemma cat_dog_tree:
  "is_tree (PyList [PyBytes [0x63, 0x61, 0x74], PyBytes [0x64, 0x6F, 0x67]])"
  "payloads_fit (PyList [PyBytes [0x63, 0x61, 0x74], PyBytes [0x64, 0x6F, 0x67]])"
  by (simp_all add: cat_dog_leaves del: encode_raw.simps)

lemma cat_dog_encoding:
  "encode_raw (PyList [PyBytes [0x63, 0x61, 0x74], PyBytes [0x64, 0x6F, 0x67]]) =
     Inr [0xC8, 0x83, 0x63, 0x61, 0x74, 0x83, 0x64, 0x6F, 0x67]"
  by code_simp

theorem consume_item_inverts_encode_raw_witness:
  "\<exists>d. consume_item [0xC8, 0x83, 0x63, 0x61, 0x74, 0x83, 0x64, 0x6F, 0x67] 0 =
         Inr (d, length [0xC8, 0x83, 0x63, 0x61, 0x74, 0x83, 0x64, 0x6F, 0x67 :: byte]) \<and>
       fst (split_rlp_from_item d) =
         PyList [PyBytes [0x63, 0x61, 0x74], PyBytes [0x64, 0x6F, 0x67]]"
proof -
  from consume_item_inverts_encode_raw [OF cat_dog_tree] obtain bs d where
    "encode_raw (PyList [PyBytes [0x63, 0x61, 0x74], PyBytes [0x64, 0x6F, 0x67]]) = Inr bs"
    "consume_item bs 0 = Inr (d, length bs)"
    "fst (split_rlp_from_item d) =
       PyList [PyBytes [0x63, 0x61, 0x74], PyBytes [0x64, 0x6F, 0x67]]"
    by blast
  then show ?thesis by (intro exI[of _ d]) (simp add: cat_dog_encoding del: encode_raw.simps)
qed

end
